theory Spec2Isabelle
  imports Complex_Main "HOL-Library.Word"
begin

section \<open>Sample values and element types\<close>

text \<open>
  The script works on numpy arrays. A floating-point value is modelled as a real number or
  the not-a-number value. A floating-point operation rounds its exact result to the nearest
  value of the working format, ties to even, with gradual underflow. Overflow to an
  infinity and the sign of a zero are not modelled: a result too large for the format stays
  a (large) real, and the properties that depend on the difference say so. Integer rasters
  hold integer-valued samples; their element type decides how array subtraction wraps
  around.
\<close>

datatype fp = Fin real | NaN

datatype dtype = UInt8 | Int8 | UInt16 | Int16 | UInt32 | Int32 | Float32 | Float64

type_synonym 'a ndarray = "'a list list"

text \<open>
  The two binary formats that occur: number of significant bits, and the least and the
  greatest exponent of a normal number.
\<close>

datatype fmt = Binary32 | Binary64

fun precision :: "fmt \<Rightarrow> nat" where
  "precision Binary32 = 24"
| "precision Binary64 = 53"

fun emin :: "fmt \<Rightarrow> int" where
  "emin Binary32 = - 126"
| "emin Binary64 = - 1022"

fun emax :: "fmt \<Rightarrow> int" where
  "emax Binary32 = 127"
| "emax Binary64 = 1023"

text \<open>The number of binary digits of a natural number.\<close>

function bit_length :: "nat \<Rightarrow> nat" where
  "bit_length n = (if n = 0 then 0 else Suc (bit_length (n div 2)))"
  by pat_completeness auto
termination
  by (relation "measure id") auto

declare bit_length.simps [simp del]

text \<open>The binary exponent of a positive real \<open>x\<close>: \<open>2 powi expo x \<le> x < 2 powi (expo x + 1)\<close>.\<close>

definition expo :: "real \<Rightarrow> int" where
  "expo x = (if 1 \<le> x then int (bit_length (nat \<lfloor>x\<rfloor>)) - 1
             else - int (bit_length (nat \<lceil>1 / x\<rceil> - 1)))"

text \<open>The nearest integer, a tie going to the even one.\<close>

definition rne :: "real \<Rightarrow> int" where
  "rne m = (let f = \<lfloor>m\<rfloor>; r = m - of_int f
            in if r < 1 / 2 then f else if 1 / 2 < r then f + 1
               else if even f then f else f + 1)"

text \<open>
  Rounding to the format: the spacing of the format around \<open>x\<close> is
  \<open>2 powi (e - precision + 1)\<close> for the exponent \<open>e\<close> of \<open>x\<close>, not below the least exponent.
\<close>

definition fl_pos :: "fmt \<Rightarrow> real \<Rightarrow> real" where
  "fl_pos f x =
     (if x = 0 then 0
      else let e = max (expo x) (emin f);
               u = 2 powi (e - int (precision f) + 1)
           in of_int (rne (x / u)) * u)"

definition fl :: "fmt \<Rightarrow> real \<Rightarrow> real" where
  "fl f x = (if x < 0 then - fl_pos f (- x) else fl_pos f x)"

text \<open>A rounded result of this magnitude or more is an infinity in numpy.\<close>

definition finite_in :: "fmt \<Rightarrow> real \<Rightarrow> bool" where
  "finite_in f x \<longleftrightarrow> \<bar>x\<bar> < 2 powi (emax f + 1)"

text \<open>
  The format of the scaled array: a \<open>float32\<close> array stays \<open>float32\<close> when it is combined
  with a Python number or with a \<open>float32\<close> scalar; an integer array combined with a Python
  float, and the true division of integers, give \<open>float64\<close>.
\<close>

fun fmt_of :: "dtype \<Rightarrow> fmt" where
  "fmt_of Float32 = Binary32"
| "fmt_of UInt8 = Binary64"
| "fmt_of Int8 = Binary64"
| "fmt_of UInt16 = Binary64"
| "fmt_of Int16 = Binary64"
| "fmt_of UInt32 = Binary64"
| "fmt_of Int32 = Binary64"
| "fmt_of Float64 = Binary64"

fun is_nan :: "fp \<Rightarrow> bool" where
  "is_nan NaN = True"
| "is_nan (Fin x) = False"

text \<open>Comparison as numpy does it: a not-a-number value is unequal to everything.\<close>

fun np_ne :: "fp \<Rightarrow> fp \<Rightarrow> bool" where
  "np_ne (Fin x) (Fin y) = (x \<noteq> y)"
| "np_ne (Fin x) NaN = True"
| "np_ne NaN y = True"

fun np_eq :: "fp \<Rightarrow> fp \<Rightarrow> bool" where
  "np_eq (Fin x) (Fin y) = (x = y)"
| "np_eq (Fin x) NaN = False"
| "np_eq NaN y = False"

fun fp_sub :: "fmt \<Rightarrow> fp \<Rightarrow> fp \<Rightarrow> fp" where
  "fp_sub f (Fin x) (Fin y) = Fin (fl f (x - y))"
| "fp_sub f (Fin x) NaN = NaN"
| "fp_sub f NaN y = NaN"

fun fp_mul :: "fmt \<Rightarrow> fp \<Rightarrow> fp \<Rightarrow> fp" where
  "fp_mul f (Fin x) (Fin y) = Fin (fl f (x * y))"
| "fp_mul f (Fin x) NaN = NaN"
| "fp_mul f NaN y = NaN"

text \<open>
  Division; the script divides only after it has checked that the two bounds differ.
  A zero divisor gives not-a-number here (numpy gives an infinity unless the dividend is
  zero too); the value of a quotient is used below only for a divisor that is not zero.
\<close>

fun fp_div :: "fmt \<Rightarrow> fp \<Rightarrow> fp \<Rightarrow> fp" where
  "fp_div f (Fin x) (Fin y) = (if y = 0 then NaN else Fin (fl f (x / y)))"
| "fp_div f (Fin x) NaN = NaN"
| "fp_div f NaN y = NaN"

fun fp_min :: "fp \<Rightarrow> fp \<Rightarrow> fp" where
  "fp_min (Fin x) (Fin y) = Fin (min x y)"
| "fp_min (Fin x) NaN = NaN"
| "fp_min NaN y = NaN"

fun fp_max :: "fp \<Rightarrow> fp \<Rightarrow> fp" where
  "fp_max (Fin x) (Fin y) = Fin (max x y)"
| "fp_max (Fin x) NaN = NaN"
| "fp_max NaN y = NaN"

text \<open>
  A Python float as an operand of an array operation: it is converted to the float type
  of the array, which rounds it when that type is \<open>float32\<close>.
\<close>

fun to_fmt :: "fmt \<Rightarrow> real \<Rightarrow> real" where
  "to_fmt Binary64 x = x"
| "to_fmt Binary32 x = fl Binary32 x"

fun python_float :: "fmt \<Rightarrow> fp \<Rightarrow> fp" where
  "python_float f (Fin x) = Fin (to_fmt f x)"
| "python_float f NaN = NaN"

text \<open>Width and signedness of the integer element types; \<open>None\<close> for floating point.\<close>

fun int_bits :: "dtype \<Rightarrow> (bool \<times> nat) option" where
  "int_bits UInt8 = Some (False, 8)"
| "int_bits Int8 = Some (True, 8)"
| "int_bits UInt16 = Some (False, 16)"
| "int_bits Int16 = Some (True, 16)"
| "int_bits UInt32 = Some (False, 32)"
| "int_bits Int32 = Some (True, 32)"
| "int_bits Float32 = None"
| "int_bits Float64 = None"

text \<open>Reduction of an integer-valued real into the range of the element type.\<close>

definition wrap_unsigned :: "nat \<Rightarrow> real \<Rightarrow> real" where
  "wrap_unsigned n x = x - 2 ^ n * of_int \<lfloor>x / 2 ^ n\<rfloor>"

definition wrap_signed :: "nat \<Rightarrow> real \<Rightarrow> real" where
  "wrap_signed n x = wrap_unsigned n (x + 2 ^ (n - 1)) - 2 ^ (n - 1)"

definition wrap :: "dtype \<Rightarrow> real \<Rightarrow> real" where
  "wrap dt x =
     (case int_bits dt of
        None \<Rightarrow> x
      | Some (sg, n) \<Rightarrow> if sg then wrap_signed n x else wrap_unsigned n x)"

text \<open>
  Subtraction of two values of the array's own element type: it stays in that type, so it
  wraps around on the integer types and rounds on the floating-point types.
\<close>

definition sub_in :: "dtype \<Rightarrow> real \<Rightarrow> real \<Rightarrow> real" where
  "sub_in dt x y = (if int_bits dt = None then fl (fmt_of dt) (x - y) else wrap dt (x - y))"

fun dt_sub :: "dtype \<Rightarrow> fp \<Rightarrow> fp \<Rightarrow> fp" where
  "dt_sub dt (Fin x) (Fin y) = Fin (sub_in dt x y)"
| "dt_sub dt (Fin x) NaN = NaN"
| "dt_sub dt NaN y = NaN"

text \<open>The range of an element type, and the buffers whose samples lie in it.\<close>

definition in_dtype :: "dtype \<Rightarrow> fp \<Rightarrow> bool" where
  "in_dtype dt v =
     (case int_bits dt of
        None \<Rightarrow> True
      | Some (sg, n) \<Rightarrow>
          (case v of
             NaN \<Rightarrow> False
           | Fin x \<Rightarrow> of_int \<lfloor>x\<rfloor> = x \<and>
               (if sg then - (2 ^ (n - 1)) \<le> x \<and> x < 2 ^ (n - 1) else 0 \<le> x \<and> x < 2 ^ n)))"

definition wf_buffer :: "dtype \<Rightarrow> fp ndarray \<Rightarrow> bool" where
  "wf_buffer dt bands_data = list_all (list_all (in_dtype dt)) bands_data"

section \<open>Array operations\<close>

datatype error =
    EmptyReduction
  | BandIndexOutOfRange string int nat
  | SourceOpenError string

definition np_any :: "bool ndarray \<Rightarrow> bool" where
  "np_any m = (True \<in> set (concat m))"

text \<open>Boolean indexing \<open>a[mask]\<close>: the selected elements, flattened.\<close>

definition select :: "'a ndarray \<Rightarrow> bool ndarray \<Rightarrow> 'a list" where
  "select a m = map fst (filter snd (zip (concat a) (concat m)))"

text \<open>\<open>np.min\<close> and \<open>np.max\<close> raise on an empty array and propagate not-a-number.\<close>

fun np_min :: "fp list \<Rightarrow> error + fp" where
  "np_min [] = Inl EmptyReduction"
| "np_min (x # xs) = Inr (fold fp_min xs x)"

fun np_max :: "fp list \<Rightarrow> error + fp" where
  "np_max [] = Inl EmptyReduction"
| "np_max (x # xs) = Inr (fold fp_max xs x)"

definition zeros_like :: "'a ndarray \<Rightarrow> 8 word ndarray" where
  "zeros_like a = map (map (\<lambda>_. 0)) a"

definition np_where :: "bool ndarray \<Rightarrow> fp ndarray \<Rightarrow> fp \<Rightarrow> fp ndarray" where
  "np_where m a z = map2 (map2 (\<lambda>b x. if b then x else z)) m a"

fun np_clip :: "fp \<Rightarrow> real \<Rightarrow> real \<Rightarrow> fp" where
  "np_clip (Fin x) lo hi = Fin (min (max x lo) hi)"
| "np_clip NaN lo hi = NaN"

definition trunc :: "real \<Rightarrow> int" where
  "trunc x = (if x < 0 then \<lceil>x\<rceil> else \<lfloor>x\<rfloor>)"

text \<open>
  The cast to unsigned 8 bit drops the fraction. What the cast makes of not-a-number
  depends on the platform: it is the parameter \<open>nan_byte\<close>.
\<close>

fun astype_uint8 :: "8 word \<Rightarrow> fp \<Rightarrow> 8 word" where
  "astype_uint8 nan_byte (Fin x) = word_of_int (trunc x)"
| "astype_uint8 nan_byte NaN = nan_byte"

section \<open>Scaling\<close>

text \<open>
  The validity mask, lines 59 to 62 and again 126 to 129. The no-data value that the
  raster reports is taken to be a value of its element type, so that the comparison
  converts nothing.
\<close>

definition valid_mask_of :: "fp ndarray \<Rightarrow> fp option \<Rightarrow> bool ndarray" where
  "valid_mask_of bands_data nodata =
     (case nodata of
        Some nd \<Rightarrow> map (map (\<lambda>s. np_ne s nd)) bands_data
      | None \<Rightarrow> map (map (\<lambda>s. \<not> is_nan s)) bands_data)"

text \<open>The global minimum and maximum, lines 65 to 71.\<close>

definition global_min_max :: "fp ndarray \<Rightarrow> bool ndarray \<Rightarrow> error + (fp \<times> fp)" where
  "global_min_max bands_data valid_mask =
     (if np_any valid_mask then
        (case np_min (select bands_data valid_mask) of
           Inl e \<Rightarrow> Inl e
         | Inr global_min \<Rightarrow>
             (case np_max (select bands_data valid_mask) of
                Inl e \<Rightarrow> Inl e
              | Inr global_max \<Rightarrow> Inr (global_min, global_max)))
      else Inr (Fin 0, Fin 1))"

text \<open>Clip and cast, lines 84 and 137.\<close>

definition clip_cast :: "8 word \<Rightarrow> fp ndarray \<Rightarrow> 8 word ndarray" where
  "clip_cast nan_byte scaled = map (map (\<lambda>x. astype_uint8 nan_byte (np_clip x 0 255))) scaled"

text \<open>
  \<open>scale_to_8bit\<close>, lines 47 to 86. The two subtractions of line 78 are in the element
  type of the array; the division and the product by 255 are in the float format of the
  array, \<open>float64\<close> for an integer array.
\<close>

definition scale_to_8bit :: "8 word \<Rightarrow> dtype \<Rightarrow> fp ndarray \<Rightarrow> fp option \<Rightarrow> error + 8 word ndarray" where
  "scale_to_8bit nan_byte dt bands_data nodata =
     (let valid_mask = valid_mask_of bands_data nodata in
      case global_min_max bands_data valid_mask of
        Inl e \<Rightarrow> Inl e
      | Inr (global_min, global_max) \<Rightarrow>
          if np_eq global_max global_min then Inr (zeros_like bands_data)
          else
            let scaled = map (map (\<lambda>s. fp_mul (fmt_of dt)
                                     (fp_div (fmt_of dt) (dt_sub dt s global_min)
                                        (dt_sub dt global_max global_min)) (Fin 255))) bands_data;
                scaled = np_where valid_mask scaled (Fin 0)
            in Inr (clip_cast nan_byte scaled))"

text \<open>
  The branch of \<open>convert_raster_to_rgb\<close> for a supplied minimum and maximum, lines 125 to
  137. The bounds are Python floats: their difference is a Python float, the array
  operations are in the float format of the array with the Python operand converted to it,
  and nothing wraps.
\<close>

definition scale_explicit :: "8 word \<Rightarrow> dtype \<Rightarrow> fp ndarray \<Rightarrow> fp option \<Rightarrow> fp \<Rightarrow> fp \<Rightarrow> 8 word ndarray" where
  "scale_explicit nan_byte dt band_data nodata min_value max_value =
     (let valid_mask = valid_mask_of band_data nodata in
      if np_eq max_value min_value then zeros_like band_data
      else
        let scaled_data = map (map (\<lambda>s. fp_mul (fmt_of dt)
                                     (fp_div (fmt_of dt)
                                        (fp_sub (fmt_of dt) s (python_float (fmt_of dt) min_value))
                                        (python_float (fmt_of dt) (fp_sub Binary64 max_value min_value)))
                                     (Fin 255))) band_data;
            scaled_data = np_where valid_mask scaled_data (Fin 0)
        in clip_cast nan_byte scaled_data)"

text \<open>
  The value of one output element, as the array expressions above compute it position by
  position; the lemmas below show that the two scaling functions are maps of these.
\<close>

definition is_valid :: "fp option \<Rightarrow> fp \<Rightarrow> bool" where
  "is_valid nodata s = (case nodata of Some nd \<Rightarrow> np_ne s nd | None \<Rightarrow> \<not> is_nan s)"

definition pixel_auto :: "8 word \<Rightarrow> dtype \<Rightarrow> fp option \<Rightarrow> fp \<Rightarrow> fp \<Rightarrow> fp \<Rightarrow> 8 word" where
  "pixel_auto nan_byte dt nodata global_min global_max s =
     astype_uint8 nan_byte
       (np_clip (if is_valid nodata s
                 then fp_mul (fmt_of dt)
                        (fp_div (fmt_of dt) (dt_sub dt s global_min) (dt_sub dt global_max global_min))
                        (Fin 255)
                 else Fin 0) 0 255)"

definition pixel_explicit :: "8 word \<Rightarrow> dtype \<Rightarrow> fp option \<Rightarrow> fp \<Rightarrow> fp \<Rightarrow> fp \<Rightarrow> 8 word" where
  "pixel_explicit nan_byte dt nodata min_value max_value s =
     astype_uint8 nan_byte
       (np_clip (if is_valid nodata s
                 then fp_mul (fmt_of dt)
                        (fp_div (fmt_of dt)
                           (fp_sub (fmt_of dt) s (python_float (fmt_of dt) min_value))
                           (python_float (fmt_of dt) (fp_sub Binary64 max_value min_value)))
                        (Fin 255)
                 else Fin 0) 0 255)"


text \<open>
  The scaled value before the clip, as a real: the difference of the bounds and the
  quotient and product as the script computes them, for a supplied domain and for the
  domain computed from the data. The divisor must be a nonzero finite number of the format.
\<close>

definition explicit_divisor :: "dtype \<Rightarrow> real \<Rightarrow> real \<Rightarrow> real" where
  "explicit_divisor dt low high = to_fmt (fmt_of dt) (fl Binary64 (high - low))"

definition explicit_scaled :: "dtype \<Rightarrow> real \<Rightarrow> real \<Rightarrow> real \<Rightarrow> real" where
  "explicit_scaled dt low high s =
     fl (fmt_of dt)
       (fl (fmt_of dt) (fl (fmt_of dt) (s - to_fmt (fmt_of dt) low) / explicit_divisor dt low high) * 255)"

definition auto_scaled :: "dtype \<Rightarrow> real \<Rightarrow> real \<Rightarrow> real \<Rightarrow> real" where
  "auto_scaled dt low high s =
     fl (fmt_of dt) (fl (fmt_of dt) (sub_in dt s low / sub_in dt high low) * 255)"

definition divisor_ok :: "dtype \<Rightarrow> real \<Rightarrow> bool" where
  "divisor_ok dt d \<longleftrightarrow> d \<noteq> 0 \<and> finite_in (fmt_of dt) d"

section \<open>World file\<close>

record affine =
  tr_a :: real
  tr_b :: real
  tr_c :: real
  tr_d :: real
  tr_e :: real
  tr_f :: real

text \<open>
  \<open>os.path.splitext\<close> of the Python standard library on POSIX paths: the extension
  starts at the last dot of the last path component, unless only dots precede it there.
  \<open>rfind\<close> is the highest index of a character, or \<open>-1\<close>.
\<close>

fun rfind_below :: "string \<Rightarrow> char \<Rightarrow> nat \<Rightarrow> int" where
  "rfind_below p ch 0 = - 1"
| "rfind_below p ch (Suc n) = (if p ! n = ch then int n else rfind_below p ch n)"

definition rfind :: "string \<Rightarrow> char \<Rightarrow> int" where
  "rfind p ch = rfind_below p ch (length p)"

function has_nondot :: "string \<Rightarrow> nat \<Rightarrow> nat \<Rightarrow> bool" where
  "has_nondot p filenameIndex dotIndex =
     (if filenameIndex < dotIndex then
        (if p ! filenameIndex \<noteq> CHR ''.'' then True
         else has_nondot p (filenameIndex + 1) dotIndex)
      else False)"
  by pat_completeness auto
termination
  by (relation "measure (\<lambda>(p, filenameIndex, dotIndex). dotIndex - filenameIndex)") auto

declare has_nondot.simps [simp del]

definition splitext :: "string \<Rightarrow> string \<times> string" where
  "splitext p =
     (let sepIndex = rfind p CHR ''/'';
          dotIndex = rfind p CHR ''.''
      in if dotIndex > sepIndex \<and> has_nondot p (nat (sepIndex + 1)) (nat dotIndex)
         then (take (nat dotIndex) p, drop (nat dotIndex) p)
         else (p, []))"

datatype message =
    MsgReading int int int string
  | MsgWriting string
  | MsgCreatedWorldFile string
  | MsgComplete
  | MsgInput nat dtype
  | MsgOutput
  | MsgDimensions nat nat
  | MsgCRS string

datatype stderr_msg =
    InputNotFound string
  | InvalidDomainSpecification
  | ConversionFailed error

datatype event =
    PathExists string
  | OpenSource string
  | ReadBand int
  | WriteGeoTIFF string "8 word ndarray"
  | WriteFile string string
  | Print message
  | Stderr stderr_msg

text \<open>
  How Python prints a float is not modelled in general. For the worked examples,
  \<open>str_integral\<close> gives what Python prints for an integer-valued float below \<open>10^16\<close>:
  sign, decimal digits, and \<open>.0\<close>.
\<close>

fun dec_nat :: "nat \<Rightarrow> string" where
  "dec_nat n =
     (if n < 10 then [''0123456789'' ! n]
      else dec_nat (n div 10) @ [''0123456789'' ! (n mod 10)])"

declare dec_nat.simps [simp del]

definition str_integral :: "real \<Rightarrow> string" where
  "str_integral x = (if x < 0 then ''-'' else []) @ dec_nat (nat \<lfloor>\<bar>x\<bar>\<rfloor>) @ ''.0''"

text \<open>
  \<open>create_world_file\<close>: the formatting of a Python float is the parameter
  \<open>str_float\<close>. The function returns the path of the world file; the write is the event.
\<close>

definition create_world_file :: "(real \<Rightarrow> string) \<Rightarrow> affine \<Rightarrow> string \<Rightarrow> string \<times> event" where
  "create_world_file str_float transform output_path =
     (let base_path = fst (splitext output_path);
          tfw_path = base_path @ ''.tfw''
      in (tfw_path,
          WriteFile tfw_path
            (str_float (tr_a transform) @ [CHR 0x0A] @
             str_float (tr_b transform) @ [CHR 0x0A] @
             str_float (tr_d transform) @ [CHR 0x0A] @
             str_float (tr_e transform) @ [CHR 0x0A] @
             str_float (tr_c transform) @ [CHR 0x0A] @
             str_float (tr_f transform) @ [CHR 0x0A])))"

section \<open>The conversion and the command line\<close>

text \<open>
  An opened raster: its bands (band \<open>k\<close>, counted from 1, is \<open>src_bands ! (k - 1)\<close>, each
  band flattened), element type, no-data value, geotransform and the values the summary
  prints. The file system is a list of paths with what is stored there.
\<close>

record raster_source =
  src_bands :: "fp ndarray"
  src_dtype :: dtype
  src_nodata :: "fp option"
  src_transform :: affine
  src_width :: nat
  src_height :: nat
  src_crs :: "string option"

datatype fs_entry = RasterFile raster_source | OtherFile

text \<open>The loop over the three band indices, lines 107 to 110.\<close>

fun validate_bands :: "(int \<times> string) list \<Rightarrow> nat \<Rightarrow> error option" where
  "validate_bands [] num_bands = None"
| "validate_bands ((band_idx, band_name) # rest) num_bands =
     (if band_idx < 1 \<or> band_idx > int num_bands
      then Some (BandIndexOutOfRange band_name band_idx num_bands)
      else validate_bands rest num_bands)"

definition read_band :: "raster_source \<Rightarrow> int \<Rightarrow> fp list" where
  "read_band src k = src_bands src ! nat (k - 1)"

text \<open>
  \<open>convert_raster_to_rgb\<close> returns an error or nothing, with the events in the order they
  happen. Writing the output is taken to succeed.
\<close>

definition convert_raster_to_rgb ::
  "(real \<Rightarrow> string) \<Rightarrow> 8 word \<Rightarrow> (string \<times> fs_entry) list \<Rightarrow> string \<Rightarrow> string \<Rightarrow> int \<Rightarrow> int \<Rightarrow> int
     \<Rightarrow> fp option \<Rightarrow> fp option \<Rightarrow> (error + unit) \<times> event list" where
  "convert_raster_to_rgb str_float nan_byte fs input_path output_path band_r band_g band_b
       min_value max_value =
     (case map_of fs input_path of
        None \<Rightarrow> (Inl (SourceOpenError input_path), [OpenSource input_path])
      | Some OtherFile \<Rightarrow> (Inl (SourceOpenError input_path), [OpenSource input_path])
      | Some (RasterFile src) \<Rightarrow>
          (let num_bands = length (src_bands src) in
           case validate_bands [(band_r, ''Red''), (band_g, ''Green''), (band_b, ''Blue'')] num_bands of
             Some e \<Rightarrow> (Inl e, [OpenSource input_path])
           | None \<Rightarrow>
               (let band_data = [read_band src band_r, read_band src band_g, read_band src band_b];
                    nodata = src_nodata src;
                    reads = [OpenSource input_path, Print (MsgReading band_r band_g band_b input_path),
                             ReadBand band_r, ReadBand band_g, ReadBand band_b]
                in case (case (min_value, max_value) of
                           (Some mn, Some mx) \<Rightarrow>
                             Inr (scale_explicit nan_byte (src_dtype src) band_data nodata mn mx)
                         | _ \<Rightarrow> scale_to_8bit nan_byte (src_dtype src) band_data nodata) of
                     Inl e \<Rightarrow> (Inl e, reads)
                   | Inr scaled_data \<Rightarrow>
                       (let (tfw_path, world) = create_world_file str_float (src_transform src) output_path
                        in (Inr (),
                            reads @
                            [Print (MsgWriting output_path), WriteGeoTIFF output_path scaled_data,
                             world, Print (MsgCreatedWorldFile tfw_path),
                             Print MsgComplete, Print (MsgInput num_bands (src_dtype src)),
                             Print MsgOutput, Print (MsgDimensions (src_width src) (src_height src))] @
                            (case src_crs src of Some crs \<Rightarrow> [Print (MsgCRS crs)] | None \<Rightarrow> []))))))"

text \<open>The parsed command line, and \<open>main\<close> after \<open>parse_args\<close>: exit code and events.\<close>

record args =
  arg_input :: string
  arg_output :: string
  arg_red :: int
  arg_green :: int
  arg_blue :: int
  arg_min :: "fp option"
  arg_max :: "fp option"

definition main :: "(real \<Rightarrow> string) \<Rightarrow> 8 word \<Rightarrow> (string \<times> fs_entry) list \<Rightarrow> args \<Rightarrow> nat \<times> event list" where
  "main str_float nan_byte fs args =
     (if map_of fs (arg_input args) = None then
        (1, [PathExists (arg_input args), Stderr (InputNotFound (arg_input args))])
      else if (arg_min args \<noteq> None) \<noteq> (arg_max args \<noteq> None) then
        (1, [PathExists (arg_input args), Stderr InvalidDomainSpecification])
      else
        (case convert_raster_to_rgb str_float nan_byte fs (arg_input args) (arg_output args)
                (arg_red args) (arg_green args) (arg_blue args) (arg_min args) (arg_max args) of
           (Inl e, evs) \<Rightarrow> (1, PathExists (arg_input args) # evs @ [Stderr (ConversionFailed e)])
         | (Inr u, evs) \<Rightarrow> (0, PathExists (arg_input args) # evs)))"

text \<open>
  What it means that the path \<open>p\<close> has the extension \<open>ext\<close> after \<open>stem\<close>: the extension
  follows the last dot of the last path component, and in that component a character
  other than a dot comes before this dot.
\<close>

definition splits_at_extension :: "string \<Rightarrow> string \<Rightarrow> string \<Rightarrow> bool" where
  "splits_at_extension p stem ext \<longleftrightarrow>
     p = stem @ CHR ''.'' # ext \<and> CHR ''.'' \<notin> set ext \<and> CHR ''/'' \<notin> set ext
     \<and> (\<exists>j<length stem. stem ! j \<noteq> CHR ''.'' \<and> CHR ''/'' \<notin> set (drop j stem))"

section \<open>Rounding to a floating-point format\<close>

lemmas fl_eval = fl_def fl_pos_def expo_def rne_def Let_def bit_length.simps power_int_minus

lemma bit_length_bounds:
  "0 < n \<Longrightarrow> 2 ^ (bit_length n - 1) \<le> n \<and> n < 2 ^ bit_length n"
proof (induction n rule: bit_length.induct)
  case (1 n)
  show ?case
  proof (cases "n div 2 = 0")
    case True
    with 1(2) have "n = 1" by (simp add: div_eq_0_iff) 
    then show ?thesis by (simp add: bit_length.simps)
  next
    case False
    then have pos: "0 < n div 2" by simp
    from 1(1) [OF _ pos] 1(2)
    have ih: "2 ^ (bit_length (n div 2) - 1) \<le> n div 2" "n div 2 < 2 ^ bit_length (n div 2)"
      by simp_all
    have b: "bit_length n = Suc (bit_length (n div 2))"
      using 1(2) by (subst bit_length.simps) simp
    have bp: "0 < bit_length (n div 2)"
      using pos by (subst bit_length.simps) simp
    then have p: "(2::nat) ^ bit_length (n div 2) = 2 * 2 ^ (bit_length (n div 2) - 1)"
      by (cases "bit_length (n div 2)") simp_all
    from ih(1) p have "2 ^ bit_length (n div 2) \<le> 2 * (n div 2)" by simp
    also have "\<dots> \<le> n" by simp
    finally have lo: "2 ^ bit_length (n div 2) \<le> n" .
    from ih(2) have "2 * (n div 2) + 2 \<le> 2 * 2 ^ bit_length (n div 2)" by simp
    moreover have "n \<le> 2 * (n div 2) + 1" by presburger
    ultimately have "n < 2 * 2 ^ bit_length (n div 2)" by linarith
    with lo b show ?thesis by simp
  qed
qed

lemma expo_bounds:
  assumes "0 < x"
  shows "2 powi (expo x) \<le> x \<and> x < 2 powi (expo x + 1)"
proof (cases "1 \<le> x")
  case True
  define n where "n = nat \<lfloor>x\<rfloor>"
  define b where "b = bit_length n"
  from True have fx: "1 \<le> \<lfloor>x\<rfloor>" by linarith
  then have rn: "real n = of_int \<lfloor>x\<rfloor>" by (simp add: n_def)
  from fx have n0: "0 < n" unfolding n_def by linarith
  have n: "0 < n" "real n \<le> x" "x < real n + 1"
    unfolding rn using n0 by (simp, simp, linarith)
  from bit_length_bounds [OF n(1)] have bb: "2 ^ (b - 1) \<le> n" "n < 2 ^ b"
    by (simp_all add: b_def)
  have bp: "0 < b" using n(1) unfolding b_def by (subst bit_length.simps) simp
  have e: "expo x = int (b - 1)" using True bp by (simp add: expo_def n_def b_def)
  have e1: "expo x + 1 = int b" using e bp by simp
  from bb(1) have "real (2 ^ (b - 1)) \<le> real n" by (simp only: of_nat_le_iff)
  then have "(2::real) ^ (b - 1) \<le> real n" by simp
  from this n(2) have "(2::real) ^ (b - 1) \<le> x" by (rule order_trans)
  then have lo: "2 powi (expo x) \<le> x" unfolding e by (simp only: power_int_of_nat)
  from bb(2) have "n + 1 \<le> 2 ^ b" by simp
  then have "real (n + 1) \<le> real (2 ^ b)" by (simp only: of_nat_le_iff)
  then have "real n + 1 \<le> 2 ^ b" by simp
  with n(3) have "x < 2 ^ b" by linarith
  then have "x < 2 powi (expo x + 1)" unfolding e1 by (simp only: power_int_of_nat)
  with lo show ?thesis by simp
next
  case False
  define y where "y = 1 / x"
  define m where "m = nat \<lceil>y\<rceil>"
  define k where "k = bit_length (m - 1)"
  from False assms have y1: "1 < y" by (simp add: y_def)
  then have cy: "2 \<le> \<lceil>y\<rceil>" by linarith
  then have rm: "real m = of_int \<lceil>y\<rceil>" unfolding m_def by (subst of_nat_nat) simp_all
  from cy have m2: "2 \<le> m" unfolding m_def by linarith
  have m: "2 \<le> m" "y \<le> real m" "real m - 1 < y"
    unfolding rm using m2 by (simp, simp, linarith)
  then have m1: "0 < m - 1" by simp
  from bit_length_bounds [OF m1] have bb: "2 ^ (k - 1) \<le> m - 1" "m - 1 < 2 ^ k"
    by (simp_all add: k_def)
  have kp: "0 < k" using m1 unfolding k_def by (subst bit_length.simps) simp
  have e: "expo x = - int k" using False by (simp add: expo_def y_def m_def k_def)
  have e1: "expo x + 1 = - int (k - 1)" using e kp by simp
  from bb(2) m(1) have "m \<le> 2 ^ k" by simp
  then have "real m \<le> real (2 ^ k)" by (simp only: of_nat_le_iff)
  then have "real m \<le> 2 ^ k" by simp
  with m(2) have "y \<le> 2 ^ k" by linarith
  then have "1 / 2 ^ k \<le> x" using assms by (simp add: y_def field_simps)
  then have lo: "2 powi (expo x) \<le> x" unfolding e by (simp only: power_int_minus_divide power_int_of_nat)
  from bb(1) have "real (2 ^ (k - 1)) \<le> real (m - 1)" by (simp only: of_nat_le_iff)
  then have "(2::real) ^ (k - 1) \<le> real m - 1" using m(1) by (simp add: of_nat_diff)
  with m(3) have "2 ^ (k - 1) < y" by linarith
  then have "x < 1 / 2 ^ (k - 1)" using assms by (simp add: y_def field_simps)
  then have "x < 2 powi (expo x + 1)" unfolding e1 by (simp only: power_int_minus_divide power_int_of_nat)
  with lo show ?thesis by simp
qed

lemma expo_mono:
  assumes "0 < x" "x \<le> y"
  shows "expo x \<le> expo y"
proof (rule ccontr)
  assume "\<not> expo x \<le> expo y"
  then have "expo y + 1 \<le> expo x" by simp
  then have "(2::real) powi (expo y + 1) \<le> 2 powi (expo x)"
    by (intro power_int_increasing) simp_all
  also have "\<dots> \<le> x" using expo_bounds [OF assms(1)] by simp
  also have "\<dots> \<le> y" by fact
  also have "\<dots> < 2 powi (expo y + 1)" using expo_bounds [of y] assms by simp
  finally show False by simp
qed

lemma rne_range: "\<lfloor>m\<rfloor> \<le> rne m \<and> rne m \<le> \<lfloor>m\<rfloor> + 1"
  by (simp add: rne_def Let_def)

lemma rne_of_int [simp]: "rne (of_int k) = k"
  by (simp add: rne_def)

lemma rne_mono:
  assumes "m1 \<le> m2"
  shows "rne m1 \<le> rne m2"
proof (cases "\<lfloor>m1\<rfloor> = \<lfloor>m2\<rfloor>")
  case True
  with assms show ?thesis
    by (auto simp: rne_def Let_def)
next
  case False
  with assms have "\<lfloor>m1\<rfloor> < \<lfloor>m2\<rfloor>" using floor_mono [OF assms] by simp
  with rne_range [of m1] rne_range [of m2] show ?thesis by linarith
qed


lemma fl_pos_zero [simp]: "fl_pos f 0 = 0"
  by (simp add: fl_pos_def)

lemma fl_zero [simp]: "fl f 0 = 0"
  by (simp add: fl_def)

lemma precision_pos: "0 < precision f"
  by (cases f) simp_all

lemma fl_pos_unfold:
  "x \<noteq> 0 \<Longrightarrow> fl_pos f x =
     of_int (rne (x / 2 powi (max (expo x) (emin f) - int (precision f) + 1)))
       * 2 powi (max (expo x) (emin f) - int (precision f) + 1)"
  by (simp add: fl_pos_def Let_def)

lemma fl_pos_nonneg:
  assumes "0 \<le> x"
  shows "0 \<le> fl_pos f x"
proof (cases "x = 0")
  case True
  then show ?thesis by simp
next
  case False
  define u :: real where "u = 2 powi (max (expo x) (emin f) - int (precision f) + 1)"
  have u: "0 < u" by (simp add: u_def)
  with assms have "0 \<le> x / u" by simp
  then have "0 \<le> \<lfloor>x / u\<rfloor>" by simp
  with rne_range [of "x / u"] have "0 \<le> rne (x / u)" by linarith
  then have "0 \<le> of_int (rne (x / u)) * u" using u by simp
  then show ?thesis using False by (simp add: fl_pos_unfold u_def)
qed

lemma fl_pos_upper:
  assumes "0 < x"
  shows "fl_pos f x \<le> 2 powi (max (expo x) (emin f) + 1)"
proof -
  define e where "e = max (expo x) (emin f)"
  define p where "p = precision f"
  define u :: real where "u = 2 powi (e - int p + 1)"
  have u: "0 < u" by (simp add: u_def)
  have "x < 2 powi (expo x + 1)" using expo_bounds [OF assms] by simp
  also have "\<dots> \<le> 2 powi (e + 1)" by (intro power_int_increasing) (simp_all add: e_def)
  finally have "x / u \<le> 2 powi (e + 1) / u" using u by (simp add: divide_right_mono)
  also have "2 powi (e + 1) / u = 2 powi ((e + 1) - (e - int p + 1))"
    unfolding u_def by (subst power_int_diff) simp_all
  also have "\<dots> = of_int (2 ^ p)" by simp
  finally have "rne (x / u) \<le> rne (of_int (2 ^ p))" by (rule rne_mono)
  then have "rne (x / u) \<le> 2 ^ p" by (simp only: rne_of_int)
  then have "real_of_int (rne (x / u)) \<le> 2 ^ p" by (metis of_int_le_iff of_int_numeral of_int_power)
  then have "of_int (rne (x / u)) * u \<le> 2 ^ p * u" using u by (simp add: mult_right_mono)
  also have "2 ^ p * u = 2 powi (int p) * 2 powi (e - int p + 1)" by (simp add: u_def)
  also have "\<dots> = 2 powi (int p + (e - int p + 1))" by (subst power_int_add) simp_all
  also have "\<dots> = 2 powi (e + 1)" by simp
  finally show ?thesis using assms by (simp add: fl_pos_unfold u_def e_def p_def)
qed

lemma fl_pos_lower:
  assumes "0 < x" "emin f \<le> expo x"
  shows "2 powi (expo x) \<le> fl_pos f x"
proof -
  define e where "e = expo x"
  define p where "p = precision f"
  define u :: real where "u = 2 powi (e - int p + 1)"
  have u: "0 < u" by (simp add: u_def)
  have pp: "0 < p" by (simp add: p_def precision_pos)
  have m: "max (expo x) (emin f) = e" using assms(2) by (simp add: e_def)
  have "2 powi e / u = 2 powi (e - (e - int p + 1))"
    unfolding u_def by (subst power_int_diff) simp_all
  also have "e - (e - int p + 1) = int (p - 1)" using pp by simp
  finally have "2 powi e / u = of_int (2 ^ (p - 1))" by simp
  moreover have "2 powi e / u \<le> x / u"
    using expo_bounds [OF assms(1)] u by (simp add: divide_right_mono e_def)
  ultimately have "of_int (2 ^ (p - 1)) \<le> x / u" by simp
  then have "rne (of_int (2 ^ (p - 1))) \<le> rne (x / u)" by (rule rne_mono)
  then have "2 ^ (p - 1) \<le> rne (x / u)" by (simp only: rne_of_int)
  then have "2 ^ (p - 1) \<le> real_of_int (rne (x / u))" by (metis of_int_le_iff of_int_numeral of_int_power)
  then have "2 ^ (p - 1) * u \<le> of_int (rne (x / u)) * u" using u by (simp add: mult_right_mono)
  moreover have "2 ^ (p - 1) * u = 2 powi (int (p - 1)) * 2 powi (e - int p + 1)" by (simp add: u_def)
  moreover have "\<dots> = 2 powi (int (p - 1) + (e - int p + 1))" by (subst power_int_add) simp_all
  moreover have "int (p - 1) + (e - int p + 1) = e" using pp by simp
  ultimately have "2 powi e \<le> of_int (rne (x / u)) * u" by simp
  then show ?thesis using assms(1) m by (simp add: fl_pos_unfold u_def e_def p_def)
qed

lemma fl_pos_mono:
  assumes "0 \<le> x" "x \<le> y"
  shows "fl_pos f x \<le> fl_pos f y"
proof (cases "x = 0")
  case True
  with assms show ?thesis by (simp add: fl_pos_nonneg)
next
  case False
  with assms have x: "0 < x" and y: "0 < y" by simp_all
  define ex where "ex = max (expo x) (emin f)"
  define ey where "ey = max (expo y) (emin f)"
  have le: "ex \<le> ey" using expo_mono [OF x assms(2)] by (simp add: ex_def ey_def)
  show ?thesis
  proof (cases "ex = ey")
    case True
    define u :: real where "u = 2 powi (ex - int (precision f) + 1)"
    have u: "0 < u" by (simp add: u_def)
    have "x / u \<le> y / u" using assms(2) u by (simp add: divide_right_mono)
    then have "rne (x / u) \<le> rne (y / u)" by (rule rne_mono)
    then have "real_of_int (rne (x / u)) * u \<le> of_int (rne (y / u)) * u"
      using u by (simp add: mult_right_mono)
    then show ?thesis
      using x y True by (simp add: fl_pos_unfold u_def ex_def ey_def)
  next
    case False
    with le have lt: "ex < ey" by simp
    then have "emin f < ey" by (simp add: ex_def)
    then have ey: "ey = expo y" "emin f \<le> expo y" by (simp_all add: ey_def)
    have "fl_pos f x \<le> 2 powi (ex + 1)" using fl_pos_upper [OF x] by (simp add: ex_def)
    also have "\<dots> \<le> 2 powi ey" using lt by (intro power_int_increasing) simp_all
    also have "\<dots> \<le> fl_pos f y" using fl_pos_lower [OF y ey(2)] by (simp add: ey(1))
    finally show ?thesis .
  qed
qed

lemma fl_mono:
  assumes "x \<le> y"
  shows "fl f x \<le> fl f y"
proof -
  have n: "0 \<le> fl_pos f z" if "0 \<le> z" for z using that by (rule fl_pos_nonneg)
  consider "0 \<le> x" | "x < 0" "0 \<le> y" | "x < 0" "y < 0" by linarith
  then show ?thesis
  proof cases
    case 1
    with assms show ?thesis by (simp add: fl_def fl_pos_mono)
  next
    case 2
    then have "0 \<le> fl_pos f (- x)" "0 \<le> fl_pos f y" by (simp_all add: n)
    with 2 show ?thesis by (simp add: fl_def)
  next
    case 3
    then have "fl_pos f (- y) \<le> fl_pos f (- x)" using assms by (intro fl_pos_mono) simp_all
    with 3 show ?thesis by (simp add: fl_def)
  qed
qed

lemma fl_nonneg: "0 \<le> x \<Longrightarrow> 0 \<le> fl f x"
  using fl_mono [of 0 x f] by simp

lemma fl_nonpos: "x \<le> 0 \<Longrightarrow> fl f x \<le> 0"
  using fl_mono [of x 0 f] by simp

lemma fl_one [simp]: "fl f 1 = 1"
  by (cases f) (simp_all add: fl_eval)

lemma fl_255 [simp]: "fl f 255 = 255"
  by (cases f) (simp_all add: fl_eval)

section \<open>Lemmas on the array operations\<close>

lemma valid_mask_of_map: "valid_mask_of a nodata = map (map (is_valid nodata)) a"
  by (cases nodata) (simp_all add: valid_mask_of_def is_valid_def)

lemma valid_mask_of_nth:
  "c < length a \<Longrightarrow> i < length (a ! c) \<Longrightarrow> valid_mask_of a nodata ! c ! i = is_valid nodata (a ! c ! i)"
  by (simp add: valid_mask_of_map)

lemma map2_same: "map2 f (map g xs) (map h xs) = map (\<lambda>x. f (g x) (h x)) xs"
  by (induction xs) simp_all

lemma np_where_map:
  "np_where (map (map g) a) (map (map h) a) z = map (map (\<lambda>x. if g x then h x else z)) a"
  unfolding np_where_def by (induction a) (simp_all add: map2_same)

lemma concat_map_map: "concat (map (map f) a) = map f (concat a)"
  by (simp add: map_concat)

lemma select_filter: "select a (map (map g) a) = filter g (concat a)"
proof -
  have "map fst (filter snd (zip xs (map g xs))) = filter g xs" for xs :: "'a list"
    by (induction xs) simp_all
  then show ?thesis
    by (simp add: select_def concat_map_map)
qed

lemma np_any_map: "np_any (map (map g) a) = (filter g (concat a) \<noteq> [])"
  by (auto simp: np_any_def concat_map_map filter_empty_conv)

lemma global_min_max_cases:
  "global_min_max a (valid_mask_of a nodata) =
     (case filter (is_valid nodata) (concat a) of
        [] \<Rightarrow> Inr (Fin 0, Fin 1)
      | v # vs \<Rightarrow> Inr (fold fp_min vs v, fold fp_max vs v))"
  by (simp add: global_min_max_def valid_mask_of_map select_filter np_any_map split: list.split)

lemma global_min_max_total:
  "\<exists>lo hi. global_min_max a (valid_mask_of a nodata) = Inr (lo, hi)"
  by (simp add: global_min_max_cases split: list.split)

lemma scale_to_8bit_eq:
  assumes "global_min_max a (valid_mask_of a nodata) = Inr (lo, hi)"
  shows "scale_to_8bit nb dt a nodata =
     Inr (if np_eq hi lo then zeros_like a else map (map (pixel_auto nb dt nodata lo hi)) a)"
  using assms
  by (simp add: scale_to_8bit_def Let_def valid_mask_of_map np_where_map clip_cast_def pixel_auto_def)

lemma scale_explicit_eq:
  "scale_explicit nb dt a nodata mn mx =
     (if np_eq mx mn then zeros_like a else map (map (pixel_explicit nb dt nodata mn mx)) a)"
  by (simp add: scale_explicit_def Let_def valid_mask_of_map np_where_map clip_cast_def pixel_explicit_def)


lemma zeros_like_all: "list_all (list_all (\<lambda>e. e = 0)) (zeros_like a)"
  by (simp add: zeros_like_def list_all_iff)

lemma zeros_like_shape: "map length (zeros_like a) = map length a"
  by (simp add: zeros_like_def)

lemma pixel_auto_invalid: "\<not> is_valid nodata s \<Longrightarrow> pixel_auto nb dt nodata lo hi s = 0"
  by (simp add: pixel_auto_def trunc_def)


section \<open>Wrap-around, clip and cast\<close>

lemma floor_div_zero: "0 \<le> (y::real) \<Longrightarrow> y < p \<Longrightarrow> \<lfloor>y / p\<rfloor> = 0"
  by (simp add: floor_eq_iff)

lemma floor_div_one: "p \<le> (y::real) \<Longrightarrow> y < 2 * p \<Longrightarrow> 0 < p \<Longrightarrow> \<lfloor>y / p\<rfloor> = 1"
  by (simp add: floor_eq_iff field_simps)

lemma wrap_unsigned_id: "0 \<le> y \<Longrightarrow> y < 2 ^ n \<Longrightarrow> wrap_unsigned n y = y"
  by (simp add: wrap_unsigned_def floor_div_zero)

lemma wrap_unsigned_id_iff: "wrap_unsigned n y = y \<longleftrightarrow> 0 \<le> y \<and> y < 2 ^ n"
proof
  assume "wrap_unsigned n y = y"
  then have "\<lfloor>y / 2 ^ n\<rfloor> = 0" by (simp add: wrap_unsigned_def)
  then show "0 \<le> y \<and> y < 2 ^ n" by (simp add: floor_eq_iff field_simps)
qed (simp add: wrap_unsigned_id)

lemma wrap_signed_id: "- (2 ^ (n - 1)) \<le> y \<Longrightarrow> y + 2 ^ (n - 1) < 2 ^ n \<Longrightarrow> wrap_signed n y = y"
  by (simp add: wrap_signed_def wrap_unsigned_id)

lemma wrap_signed_id_iff: "wrap_signed n y = y \<longleftrightarrow> - (2 ^ (n - 1)) \<le> y \<and> y + 2 ^ (n - 1) < 2 ^ n"
proof
  assume "wrap_signed n y = y"
  then have "wrap_unsigned n (y + 2 ^ (n - 1)) = y + 2 ^ (n - 1)" by (simp add: wrap_signed_def)
  then show "- (2 ^ (n - 1)) \<le> y \<and> y + 2 ^ (n - 1) < 2 ^ n" by (simp add: wrap_unsigned_id_iff)
qed (simp add: wrap_signed_id)

lemma wrap_signed_over:
  assumes "2 ^ n \<le> y + 2 ^ (n - 1)" "y + 2 ^ (n - 1) < 2 * 2 ^ n"
  shows "wrap_signed n y = y - 2 ^ n"
proof -
  have "\<lfloor>(y + 2 ^ (n - 1)) / 2 ^ n\<rfloor> = 1"
    using assms by (intro floor_div_one) simp_all
  then show ?thesis by (simp add: wrap_signed_def wrap_unsigned_def)
qed

lemma wrap_id_below:
  assumes "wrap dt y = y" "0 \<le> x" "x \<le> y"
  shows "wrap dt x = x"
proof (cases "int_bits dt")
  case None
  then show ?thesis by (simp add: wrap_def)
next
  case (Some p)
  obtain sg n where p: "p = (sg, n)" by (cases p)
  show ?thesis
  proof (cases sg)
    case True
    with Some p assms(1) have "wrap_signed n y = y" by (simp add: wrap_def)
    then have "- (2 ^ (n - 1)) \<le> y \<and> y + 2 ^ (n - 1) < 2 ^ n" by (simp add: wrap_signed_id_iff)
    moreover have "(0::real) \<le> 2 ^ (n - 1)" by simp
    ultimately have "wrap_signed n x = x" using assms(2,3) by (intro wrap_signed_id) linarith+
    with Some p True show ?thesis by (simp add: wrap_def)
  next
    case False
    with Some p assms(1) have "wrap_unsigned n y = y" by (simp add: wrap_def)
    then have "0 \<le> y \<and> y < 2 ^ n" by (simp add: wrap_unsigned_id_iff)
    with assms(2,3) have "wrap_unsigned n x = x" by (intro wrap_unsigned_id) auto
    with Some p False show ?thesis by (simp add: wrap_def)
  qed
qed

lemma wrap_in_dtype: "in_dtype dt (Fin x) \<Longrightarrow> wrap dt x = x"
  by (cases dt) (simp_all add: in_dtype_def wrap_def wrap_signed_id wrap_unsigned_id)

lemma trunc_nonneg: "0 \<le> x \<Longrightarrow> trunc x = \<lfloor>x\<rfloor>"
  by (simp add: trunc_def)

lemma clip_cast_value:
  "astype_uint8 nb (np_clip (Fin x) 0 255) = word_of_int \<lfloor>min (max x 0) 255\<rfloor>"
  by (simp add: trunc_nonneg)

lemma clip_floor_range: "0 \<le> \<lfloor>min (max (x::real) 0) 255\<rfloor> \<and> \<lfloor>min (max x 0) 255\<rfloor> \<le> 255"
  by (simp add: le_floor_iff floor_le_iff min_def max_def)

lemma uint_clip_cast: "uint (astype_uint8 nb (np_clip (Fin x) 0 255)) = \<lfloor>min (max x 0) 255\<rfloor>"
proof -
  have "\<lfloor>min (max x 0) 255\<rfloor> mod 256 = \<lfloor>min (max x 0) 255\<rfloor>"
    using clip_floor_range [of x] by (intro mod_pos_pos_trivial) auto
  then show ?thesis
    unfolding clip_cast_value by (simp add: uint_word_of_int)
qed


lemma clip_cast_low: "x \<le> 0 \<Longrightarrow> astype_uint8 nb (np_clip (Fin x) 0 255) = 0"
  unfolding clip_cast_value by (simp add: max_def)

lemma clip_cast_high: "255 \<le> x \<Longrightarrow> astype_uint8 nb (np_clip (Fin x) 0 255) = 255"
  unfolding clip_cast_value by (simp add: min_def max_def)


lemma unat_byte: "unat (w :: 8 word) \<le> 255"
proof -
  have "unat w < 2 ^ LENGTH(8)" by (rule unsigned_less)
  then show ?thesis by simp
qed

lemma wrap_zero: "wrap dt 0 = 0"
  by (cases dt) (simp_all add: wrap_def wrap_signed_id wrap_unsigned_id)

lemmas eval_defs = scale_to_8bit_def scale_explicit_def valid_mask_of_def global_min_max_def
  np_any_def select_def np_where_def clip_cast_def zeros_like_def trunc_def wrap_def
  wrap_unsigned_def wrap_signed_def sub_in_def explicit_divisor_def explicit_scaled_def
  auto_scaled_def divisor_ok_def finite_in_def fl_eval

section \<open>The scaled value of one sample\<close>


lemma to_fmt_zero [simp]: "to_fmt f 0 = 0"
  by (cases f) simp_all


lemma sub_in_self [simp]: "sub_in dt x x = 0"
  by (simp add: sub_in_def wrap_zero)



lemma pixel_auto_Fin:
  assumes "is_valid nodata (Fin s)" "sub_in dt high low \<noteq> 0"
  shows "pixel_auto nb dt nodata (Fin low) (Fin high) (Fin s)
           = astype_uint8 nb (np_clip (Fin (auto_scaled dt low high s)) 0 255)"
  using assms by (simp add: pixel_auto_def auto_scaled_def)





section \<open>Properties of the scaling\<close>

text \<open>
  Claim C3. When the two bounds of the scaling domain compare equal, computed from the
  data or supplied, the output has the shape of the input and every element of it is 0.
\<close>

theorem degenerate_domain_all_zero:
  "(global_min_max bands_data (valid_mask_of bands_data nodata) = Inr (low, high) \<and> np_eq high low
      \<longrightarrow> (\<exists>out. scale_to_8bit nan_byte dt bands_data nodata = Inr out
             \<and> map length out = map length bands_data
             \<and> list_all (list_all (\<lambda>e. e = 0)) out))
   \<and> (np_eq max_value min_value
      \<longrightarrow> map length (scale_explicit nan_byte dt bands_data nodata min_value max_value) = map length bands_data
        \<and> list_all (list_all (\<lambda>e. e = 0)) (scale_explicit nan_byte dt bands_data nodata min_value max_value))"
  by (simp add: scale_to_8bit_eq scale_explicit_eq zeros_like_all zeros_like_shape)

theorem degenerate_domain_all_zero_witness:
  "global_min_max [[Fin 5, Fin 5]] (valid_mask_of [[Fin 5, Fin 5]] None) = Inr (Fin 5, Fin 5)
   \<and> np_eq (Fin 5) (Fin 5)
   \<and> scale_to_8bit 0 UInt16 [[Fin 5, Fin 5]] None = Inr [[0, 0]]
   \<and> np_eq (Fin 7) (Fin 7)
   \<and> scale_explicit 0 UInt16 [[Fin 5, Fin 5]] None (Fin 7) (Fin 7) = [[0, 0]]"
  using degenerate_domain_all_zero [where bands_data = "[[Fin 5, Fin 5]]" and nodata = None
      and low = "Fin 5" and high = "Fin 5" and nan_byte = 0 and dt = UInt16
      and min_value = "Fin 7" and max_value = "Fin 7"]
  by (simp add: eval_defs)

lemma fold_fp_min_nan: "NaN \<in> set (a # xs) \<Longrightarrow> fold fp_min xs a = NaN"
proof (induction xs arbitrary: a)
  case Nil
  then show ?case by simp
next
  case (Cons x xs)
  show ?case
  proof (cases "a = NaN \<or> x = NaN")
    case True
    then have "fp_min x a = NaN" by (cases x; cases a) auto
    then show ?thesis using Cons.IH [of NaN] by simp
  next
    case False
    with Cons.prems have "NaN \<in> set xs" by auto
    then have "NaN \<in> set (fp_min x a # xs)" by simp
    then show ?thesis using Cons.IH [of "fp_min x a"] by simp
  qed
qed

lemma fold_fp_max_nan: "NaN \<in> set (a # xs) \<Longrightarrow> fold fp_max xs a = NaN"
proof (induction xs arbitrary: a)
  case Nil
  then show ?case by simp
next
  case (Cons x xs)
  show ?case
  proof (cases "a = NaN \<or> x = NaN")
    case True
    then have "fp_max x a = NaN" by (cases x; cases a) auto
    then show ?thesis using Cons.IH [of NaN] by simp
  next
    case False
    with Cons.prems have "NaN \<in> set xs" by auto
    then have "NaN \<in> set (fp_max x a # xs)" by simp
    then show ?thesis using Cons.IH [of "fp_max x a"] by simp
  qed
qed

lemma nth_in_concat: "c < length a \<Longrightarrow> i < length (a ! c) \<Longrightarrow> a ! c ! i \<in> set (concat a)"
  by (metis nth_mem set_concat UN_iff)

text \<open>A valid sample that is not-a-number makes both bounds not-a-number.\<close>

lemma global_min_max_nan:
  assumes "c < length a" "i < length (a ! c)"
    and "valid_mask_of a nodata ! c ! i" and "a ! c ! i = NaN"
  shows "global_min_max a (valid_mask_of a nodata) = Inr (NaN, NaN)"
proof -
  from assms have mem: "NaN \<in> set (filter (is_valid nodata) (concat a))"
    using nth_in_concat [OF assms(1,2)] by (simp add: valid_mask_of_nth)
  then obtain w ws where f: "filter (is_valid nodata) (concat a) = w # ws"
    by (cases "filter (is_valid nodata) (concat a)") auto
  with mem have "NaN \<in> set (w # ws)" by simp
  then have "fold fp_min ws w = NaN" "fold fp_max ws w = NaN"
    by (simp_all only: fold_fp_min_nan fold_fp_max_nan)
  with f show ?thesis by (simp add: global_min_max_cases)
qed





text \<open>
  Claim C5. When the mask is false everywhere, automatic scaling raises nothing: the
  domain is (0, 1) and the output is all zero.
\<close>

theorem all_nodata_falls_back:
  assumes "\<not> np_any (valid_mask_of bands_data nodata)"
  shows "global_min_max bands_data (valid_mask_of bands_data nodata) = Inr (Fin 0, Fin 1)
       \<and> (\<exists>out. scale_to_8bit nan_byte dt bands_data nodata = Inr out
             \<and> map length out = map length bands_data
             \<and> list_all (list_all (\<lambda>e. e = 0)) out)"
proof -
  have d: "global_min_max bands_data (valid_mask_of bands_data nodata) = Inr (Fin 0, Fin 1)"
    using assms by (simp add: global_min_max_def)
  from assms have "filter (is_valid nodata) (concat bands_data) = []"
    by (simp add: valid_mask_of_map np_any_map)
  then have inv: "\<forall>row \<in> set bands_data. \<forall>s \<in> set row. \<not> is_valid nodata s"
    by (auto simp: filter_empty_conv)
  have "list_all (list_all (\<lambda>e. e = 0)) (map (map (pixel_auto nan_byte dt nodata (Fin 0) (Fin 1))) bands_data)"
    using inv by (simp add: list_all_iff pixel_auto_invalid)
  then show ?thesis
    by (simp add: d scale_to_8bit_eq [OF d])
qed

theorem all_nodata_falls_back_witness:
  "\<not> np_any (valid_mask_of [[Fin 9, Fin 9], [Fin 9, Fin 9]] (Some (Fin 9)))
   \<and> global_min_max [[Fin 9, Fin 9], [Fin 9, Fin 9]] (valid_mask_of [[Fin 9, Fin 9], [Fin 9, Fin 9]] (Some (Fin 9)))
       = Inr (Fin 0, Fin 1)
   \<and> scale_to_8bit 0 UInt16 [[Fin 9, Fin 9], [Fin 9, Fin 9]] (Some (Fin 9)) = Inr [[0, 0], [0, 0]]"
  using all_nodata_falls_back [where bands_data = "[[Fin 9, Fin 9], [Fin 9, Fin 9]]"
      and nodata = "Some (Fin 9)" and nan_byte = 0 and dt = UInt16]
  by (simp add: eval_defs)

text \<open>
  Claim C8. Every output element lies in 0..255 and no scaling raises; on a finite value
  the cast after the clip does not wrap; and with the supplied domain (0, 10000) a valid
  sample of 15000 gives exactly 255.
\<close>

theorem output_in_range:
  "(\<exists>out. scale_to_8bit nan_byte dt bands_data nodata = Inr out
        \<and> list_all (list_all (\<lambda>e. unat e \<le> 255)) out)
   \<and> list_all (list_all (\<lambda>e. unat e \<le> 255))
        (scale_explicit nan_byte dt bands_data nodata min_value max_value)
   \<and> uint (astype_uint8 nan_byte (np_clip (Fin x) 0 255)) = \<lfloor>min (max x 0) 255\<rfloor>
   \<and> (c < length bands_data \<and> i < length (bands_data ! c) \<and> bands_data ! c ! i = Fin 15000
        \<and> valid_mask_of bands_data nodata ! c ! i
      \<longrightarrow> scale_explicit nan_byte dt bands_data nodata (Fin 0) (Fin 10000) ! c ! i = 255)"
proof -
  obtain lo hi where d: "global_min_max bands_data (valid_mask_of bands_data nodata) = Inr (lo, hi)"
    using global_min_max_total by blast
  have 1: "\<exists>out. scale_to_8bit nan_byte dt bands_data nodata = Inr out
        \<and> list_all (list_all (\<lambda>e. unat e \<le> 255)) out"
    by (simp add: scale_to_8bit_eq [OF d] list_all_iff unat_byte)
  have 2: "list_all (list_all (\<lambda>e. unat e \<le> 255))
        (scale_explicit nan_byte dt bands_data nodata min_value max_value)"
    by (simp add: list_all_iff unat_byte)
  have 3: "scale_explicit nan_byte dt bands_data nodata (Fin 0) (Fin 10000) ! c ! i = 255"
    if "c < length bands_data" "i < length (bands_data ! c)" "bands_data ! c ! i = Fin 15000"
      "valid_mask_of bands_data nodata ! c ! i"
  proof -
    from that have v: "is_valid nodata (Fin 15000)" by (simp add: valid_mask_of_nth)
    have "pixel_explicit nan_byte dt nodata (Fin 0) (Fin 10000) (Fin 15000) = 255"
      using v by (cases "fmt_of dt") (simp_all add: pixel_explicit_def trunc_def fl_eval)
    with that show ?thesis by (simp add: scale_explicit_eq)
  qed
  from 1 2 3 show ?thesis by (simp only: uint_clip_cast) blast
qed

theorem output_in_range_witness:
  "(0::nat) < length [[Fin 15000, Fin 2500]] \<and> (0::nat) < length ([[Fin 15000, Fin 2500]] ! 0)
   \<and> [[Fin 15000, Fin 2500]] ! 0 ! 0 = Fin 15000
   \<and> valid_mask_of [[Fin 15000, Fin 2500]] None ! 0 ! 0
   \<and> scale_explicit 0 UInt16 [[Fin 15000, Fin 2500]] None (Fin 0) (Fin 10000) = [[255, 63]]"
  using output_in_range [where bands_data = "[[Fin 15000, Fin 2500]]" and nodata = None
      and c = 0 and i = 0 and nan_byte = 0 and dt = UInt16]
  by (simp add: eval_defs)










text \<open>
  The rounding of the floating-point operations shows in the output. The sample is the
  \<open>float64\<close> nearest to 0.3 and the domain is (0, 0.5): the quotient is exact, its product
  by 255 rounds up to 153, and 153 is stored, where the exact product has integer part 152.
  Likewise the \<open>float64\<close> nearest to 1/255 with the domain (0, 1) is stored as 1, where the
  exact product has integer part 0.
\<close>

lemma float_rounding_shows:
  "scale_explicit 0 Float64 [[Fin (5404319552844595 / 2 ^ 54)]] None (Fin 0) (Fin (1 / 2)) = [[153]]
   \<and> \<lfloor>(5404319552844595 / 2 ^ 54 - 0) / (1 / 2 - 0) * (255::real)\<rfloor> = 152
   \<and> scale_explicit 0 Float64 [[Fin (282578800148737 / 2 ^ 56)]] None (Fin 0) (Fin 1) = [[1]]
   \<and> \<lfloor>(282578800148737 / 2 ^ 56 - 0) / (1 - 0) * (255::real)\<rfloor> = 0"
  by (simp add: eval_defs)

text \<open>
  On a signed raster whose range does not fit the element type the two differences wrap
  around: the difference of the bounds below is \<open>40000 - 65536\<close>, and the middle sample,
  half way between the bounds, comes out as 0.
\<close>

lemma int16_range_overflow:
  "sub_in Int16 20000 (- 20000) = - 25536
   \<and> scale_to_8bit 0 Int16 [[Fin (- 20000), Fin 0, Fin 20000]] None = Inr [[0, 0, 255]]"
  by (simp add: eval_defs)


lemma fold_fp_min_map_Fin: "fold fp_min (map Fin xs) (Fin a) = Fin (fold min xs a)"
  by (induction xs arbitrary: a) simp_all

lemma fold_fp_max_map_Fin: "fold fp_max (map Fin xs) (Fin a) = Fin (fold max xs a)"
  by (induction xs arbitrary: a) simp_all

lemma global_min_max_finite:
  assumes "filter (is_valid nodata) (concat a) = map Fin (r # rs)"
  shows "global_min_max a (valid_mask_of a nodata)
           = Inr (Fin (Min (set (r # rs))), Fin (Max (set (r # rs))))"
  using assms
  by (simp add: global_min_max_cases fold_fp_min_map_Fin fold_fp_max_map_Fin
      Min.set_eq_fold Max.set_eq_fold del: set_simps)

lemma all_finite_map_Fin: "\<forall>x \<in> set xs. \<not> is_nan x \<Longrightarrow> \<exists>rs. xs = map Fin rs"
proof (induction xs)
  case Nil
  then show ?case by simp
next
  case (Cons x xs)
  then obtain rs where "xs = map Fin rs" by auto
  moreover from Cons.prems obtain r where "x = Fin r" by (cases x) auto
  ultimately have "x # xs = map Fin (r # rs)" by simp
  then show ?case by (rule exI)
qed

lemma in_concat_nth:
  assumes "x \<in> set (concat a)"
  shows "\<exists>c i. c < length a \<and> i < length (a ! c) \<and> a ! c ! i = x"
proof -
  from assms obtain row where row: "row \<in> set a" "x \<in> set row" by auto
  from row(1) obtain c where c: "c < length a" "a ! c = row" by (auto simp: in_set_conv_nth)
  from row(2) obtain i where i: "i < length row" "row ! i = x" by (auto simp: in_set_conv_nth)
  from c i show ?thesis by auto
qed

lemma valid_samples_set:
  "{x. \<exists>c i. c < length a \<and> i < length (a ! c) \<and> valid_mask_of a nodata ! c ! i \<and> a ! c ! i = Fin x}
     = {x. Fin x \<in> set (filter (is_valid nodata) (concat a))}"
proof -
  have "(\<exists>c i. c < length a \<and> i < length (a ! c) \<and> valid_mask_of a nodata ! c ! i \<and> a ! c ! i = Fin x)
        \<longleftrightarrow> Fin x \<in> set (concat a) \<and> is_valid nodata (Fin x)" for x
  proof
    assume "\<exists>c i. c < length a \<and> i < length (a ! c) \<and> valid_mask_of a nodata ! c ! i \<and> a ! c ! i = Fin x"
    then obtain c i where ci: "c < length a" "i < length (a ! c)" "valid_mask_of a nodata ! c ! i" "a ! c ! i = Fin x"
      by blast
    then show "Fin x \<in> set (concat a) \<and> is_valid nodata (Fin x)"
      using nth_in_concat [OF ci(1,2)] by (simp add: valid_mask_of_nth)
  next
    assume r: "Fin x \<in> set (concat a) \<and> is_valid nodata (Fin x)"
    then have "Fin x \<in> set (concat a)" by simp
    from in_concat_nth [OF this]
    obtain c i where ci: "c < length a" "i < length (a ! c)" "a ! c ! i = Fin x" by blast
    with r have "valid_mask_of a nodata ! c ! i" by (simp add: valid_mask_of_nth)
    with ci show "\<exists>c i. c < length a \<and> i < length (a ! c) \<and> valid_mask_of a nodata ! c ! i \<and> a ! c ! i = Fin x"
      by blast
  qed
  then show ?thesis by simp
qed

lemma auto_domain_general:
  assumes any: "np_any (valid_mask_of a nodata)"
    and fin: "\<forall>c<length a. \<forall>i<length (a ! c). valid_mask_of a nodata ! c ! i \<longrightarrow> \<not> is_nan (a ! c ! i)"
  shows "global_min_max a (valid_mask_of a nodata) =
     Inr (Fin (Min {x. \<exists>c i. c < length a \<and> i < length (a ! c)
                      \<and> valid_mask_of a nodata ! c ! i \<and> a ! c ! i = Fin x}),
          Fin (Max {x. \<exists>c i. c < length a \<and> i < length (a ! c)
                      \<and> valid_mask_of a nodata ! c ! i \<and> a ! c ! i = Fin x}))"
proof -
  have "\<forall>x \<in> set (filter (is_valid nodata) (concat a)). \<not> is_nan x"
  proof
    fix x assume x: "x \<in> set (filter (is_valid nodata) (concat a))"
    then have "x \<in> set (concat a)" by simp
    from in_concat_nth [OF this]
    obtain c i where ci: "c < length a" "i < length (a ! c)" "a ! c ! i = x" by blast
    with x have "valid_mask_of a nodata ! c ! i" by (simp add: valid_mask_of_nth)
    with fin ci show "\<not> is_nan x" by blast
  qed
  then obtain rs where rs: "filter (is_valid nodata) (concat a) = map Fin rs"
    using all_finite_map_Fin by blast
  from any have "filter (is_valid nodata) (concat a) \<noteq> []"
    by (simp add: valid_mask_of_map np_any_map)
  with rs obtain r rs' where r: "rs = r # rs'" by (cases rs) auto
  have "{x. Fin x \<in> set (filter (is_valid nodata) (concat a))} = set (r # rs')"
    unfolding rs r by auto
  then show ?thesis
    using global_min_max_finite [OF rs [unfolded r]] by (simp only: valid_samples_set)
qed

lemma global_min_max_range:
  assumes bnd: "\<forall>s \<in> set (concat a). is_valid nodata s \<longrightarrow> (\<exists>x. s = Fin x \<and> lo \<le> x \<and> x \<le> hi)"
    and lo: "Fin lo \<in> set (concat a)" "is_valid nodata (Fin lo)"
    and hi: "Fin hi \<in> set (concat a)" "is_valid nodata (Fin hi)"
  shows "global_min_max a (valid_mask_of a nodata) = Inr (Fin lo, Fin hi)"
proof -
  let ?F = "filter (is_valid nodata) (concat a)"
  have "\<forall>x \<in> set ?F. \<not> is_nan x"
  proof
    fix x assume "x \<in> set ?F"
    then have "x \<in> set (concat a)" "is_valid nodata x" by simp_all
    with bnd obtain r where "x = Fin r" by blast
    then show "\<not> is_nan x" by simp
  qed
  then obtain rs where rs: "?F = map Fin rs" using all_finite_map_Fin by blast
  from lo have "Fin lo \<in> set ?F" by simp
  with rs obtain r rs' where r: "rs = r # rs'" by (cases rs) auto
  have mem: "x \<in> set (r # rs') \<longleftrightarrow> Fin x \<in> set ?F" for x
    unfolding rs r by auto
  have lo_in: "lo \<in> set (r # rs')" using lo by (simp only: mem) simp
  have hi_in: "hi \<in> set (r # rs')" using hi by (simp only: mem) simp
  have bounds: "lo \<le> x \<and> x \<le> hi" if "x \<in> set (r # rs')" for x
  proof -
    from that have "Fin x \<in> set ?F" by (simp only: mem)
    then have "Fin x \<in> set (concat a)" "is_valid nodata (Fin x)" by simp_all
    with bnd show ?thesis by auto
  qed
  have "Min (set (r # rs')) = lo"
    using lo_in bounds by (intro Min_eqI) auto
  moreover have "Max (set (r # rs')) = hi"
    using hi_in bounds by (intro Max_eqI) auto
  ultimately show ?thesis
    using global_min_max_finite [OF rs [unfolded r]] by simp
qed

lemma sub_in_in_dtype:
  assumes "in_dtype dt (Fin 12000)"
  shows "sub_in dt 12000 0 = 12000"
proof (cases "int_bits dt")
  case None
  then show ?thesis by (cases "fmt_of dt") (simp_all add: sub_in_def fl_eval)
next
  case (Some b)
  with wrap_in_dtype [OF assms] show ?thesis by (simp add: sub_in_def)
qed

lemma pixel_auto_top:
  assumes "is_valid nodata (Fin hi)" "sub_in dt hi lo \<noteq> 0"
  shows "pixel_auto nb dt nodata (Fin lo) (Fin hi) (Fin hi) = 255"
proof -
  have "auto_scaled dt lo hi hi = 255" using assms(2) by (simp add: auto_scaled_def)
  then have "pixel_auto nb dt nodata (Fin lo) (Fin hi) (Fin hi)
          = astype_uint8 nb (np_clip (Fin 255) 0 255)"
    using pixel_auto_Fin [OF assms, of nb] by simp
  then show ?thesis by (simp only: clip_cast_high [of 255])
qed

lemma pixel_auto_bottom:
  assumes "is_valid nodata (Fin lo)" "sub_in dt hi lo \<noteq> 0"
  shows "pixel_auto nb dt nodata (Fin lo) (Fin hi) (Fin lo) = 0"
proof -
  have "auto_scaled dt lo hi lo = 0" by (simp add: auto_scaled_def)
  then have "pixel_auto nb dt nodata (Fin lo) (Fin hi) (Fin lo)
          = astype_uint8 nb (np_clip (Fin 0) 0 255)"
    using pixel_auto_Fin [OF assms, of nb] by simp
  then show ?thesis by (simp only: clip_cast_low [of 0])
qed

text \<open>
  Claim C2. With no supplied domain and at least one valid sample, the domain is the
  minimum and the maximum, as numpy takes them, of the valid samples of all bands taken
  together, one range for the three channels: the least and the greatest valid sample,
  and not-a-number twice when a valid sample is not-a-number. In particular, for the
  bands read for red, green and blue with values in 0..10000, 0..8000 and 0..12000 the
  domain is (0, 12000), a sample of 12000 in any band gives 255 and a sample of 0 gives 0.
\<close>

theorem auto_domain_joint_min_max:
  "(np_any (valid_mask_of bands_data nodata)
    \<longrightarrow> global_min_max bands_data (valid_mask_of bands_data nodata) =
          Inr (if \<exists>c<length bands_data. \<exists>i<length (bands_data ! c).
                    valid_mask_of bands_data nodata ! c ! i \<and> is_nan (bands_data ! c ! i)
               then (NaN, NaN)
               else (Fin (Min {x. \<exists>c i. c < length bands_data \<and> i < length (bands_data ! c)
                          \<and> valid_mask_of bands_data nodata ! c ! i \<and> bands_data ! c ! i = Fin x}),
                     Fin (Max {x. \<exists>c i. c < length bands_data \<and> i < length (bands_data ! c)
                          \<and> valid_mask_of bands_data nodata ! c ! i \<and> bands_data ! c ! i = Fin x}))))
   \<and> (list_all (\<lambda>s. case s of Fin x \<Rightarrow> 0 \<le> x \<and> x \<le> 10000 | NaN \<Rightarrow> False) band_r
        \<and> Fin 0 \<in> set band_r \<and> Fin 10000 \<in> set band_r
      \<and> list_all (\<lambda>s. case s of Fin x \<Rightarrow> 0 \<le> x \<and> x \<le> 8000 | NaN \<Rightarrow> False) band_g
        \<and> Fin 0 \<in> set band_g \<and> Fin 8000 \<in> set band_g
      \<and> list_all (\<lambda>s. case s of Fin x \<Rightarrow> 0 \<le> x \<and> x \<le> 12000 | NaN \<Rightarrow> False) band_b
        \<and> Fin 0 \<in> set band_b \<and> Fin 12000 \<in> set band_b
      \<and> wf_buffer dt [band_r, band_g, band_b]
    \<longrightarrow> global_min_max [band_r, band_g, band_b] (valid_mask_of [band_r, band_g, band_b] None)
          = Inr (Fin 0, Fin 12000)
        \<and> (\<exists>out. scale_to_8bit nan_byte dt [band_r, band_g, band_b] None = Inr out
              \<and> (\<forall>c<3. \<forall>i<length ([band_r, band_g, band_b] ! c).
                    ([band_r, band_g, band_b] ! c ! i = Fin 12000 \<longrightarrow> out ! c ! i = 255)
                  \<and> ([band_r, band_g, band_b] ! c ! i = Fin 0 \<longrightarrow> out ! c ! i = 0))))"
proof (intro conjI impI)
  assume any: "np_any (valid_mask_of bands_data nodata)"
  show "global_min_max bands_data (valid_mask_of bands_data nodata) =
          Inr (if \<exists>c<length bands_data. \<exists>i<length (bands_data ! c).
                    valid_mask_of bands_data nodata ! c ! i \<and> is_nan (bands_data ! c ! i)
               then (NaN, NaN)
               else (Fin (Min {x. \<exists>c i. c < length bands_data \<and> i < length (bands_data ! c)
                          \<and> valid_mask_of bands_data nodata ! c ! i \<and> bands_data ! c ! i = Fin x}),
                     Fin (Max {x. \<exists>c i. c < length bands_data \<and> i < length (bands_data ! c)
                          \<and> valid_mask_of bands_data nodata ! c ! i \<and> bands_data ! c ! i = Fin x})))"
  proof (cases "\<exists>c<length bands_data. \<exists>i<length (bands_data ! c).
                    valid_mask_of bands_data nodata ! c ! i \<and> is_nan (bands_data ! c ! i)")
    case True
    then obtain c i where ci: "c < length bands_data" "i < length (bands_data ! c)"
      "valid_mask_of bands_data nodata ! c ! i" "is_nan (bands_data ! c ! i)" by blast
    from ci(4) have "bands_data ! c ! i = NaN" by (cases "bands_data ! c ! i") simp_all
    from global_min_max_nan [OF ci(1,2,3) this] True show ?thesis by (simp only: if_True)
  next
    case False
    then have fin: "\<forall>c<length bands_data. \<forall>i<length (bands_data ! c).
        valid_mask_of bands_data nodata ! c ! i \<longrightarrow> \<not> is_nan (bands_data ! c ! i)" by blast
    from auto_domain_general [OF any fin] False show ?thesis by (simp only: if_False)
  qed
next
  let ?a = "[band_r, band_g, band_b]"
  assume h: "list_all (\<lambda>s. case s of Fin x \<Rightarrow> 0 \<le> x \<and> x \<le> 10000 | NaN \<Rightarrow> False) band_r
        \<and> Fin 0 \<in> set band_r \<and> Fin 10000 \<in> set band_r
      \<and> list_all (\<lambda>s. case s of Fin x \<Rightarrow> 0 \<le> x \<and> x \<le> 8000 | NaN \<Rightarrow> False) band_g
        \<and> Fin 0 \<in> set band_g \<and> Fin 8000 \<in> set band_g
      \<and> list_all (\<lambda>s. case s of Fin x \<Rightarrow> 0 \<le> x \<and> x \<le> 12000 | NaN \<Rightarrow> False) band_b
        \<and> Fin 0 \<in> set band_b \<and> Fin 12000 \<in> set band_b
      \<and> wf_buffer dt [band_r, band_g, band_b]"
  have b: "\<exists>x. s = Fin x \<and> 0 \<le> x \<and> x \<le> 12000" if "s \<in> set (concat ?a)" for s
  proof (cases s)
    case (Fin x)
    with that h show ?thesis by (auto simp: list_all_iff split: fp.splits)
  next
    case NaN
    with that h show ?thesis by (auto simp: list_all_iff split: fp.splits)
  qed
  have d: "global_min_max ?a (valid_mask_of ?a None) = Inr (Fin 0, Fin 12000)"
    using h b by (intro global_min_max_range) (auto simp: is_valid_def)
  then show "global_min_max ?a (valid_mask_of ?a None) = Inr (Fin 0, Fin 12000)" .
  from h have "in_dtype dt (Fin 12000)"
    by (auto simp: wf_buffer_def list_all_iff)
  then have nz: "sub_in dt 12000 0 \<noteq> 0" by (simp add: sub_in_in_dtype)
  have top: "pixel_auto nan_byte dt None (Fin 0) (Fin 12000) (Fin 12000) = 255"
    and bot: "pixel_auto nan_byte dt None (Fin 0) (Fin 12000) (Fin 0) = 0"
    using pixel_auto_top [OF _ nz, of None nan_byte] pixel_auto_bottom [OF _ nz, of None nan_byte]
    by (simp_all add: is_valid_def)
  show "\<exists>out. scale_to_8bit nan_byte dt ?a None = Inr out
              \<and> (\<forall>c<3. \<forall>i<length (?a ! c).
                    (?a ! c ! i = Fin 12000 \<longrightarrow> out ! c ! i = 255)
                  \<and> (?a ! c ! i = Fin 0 \<longrightarrow> out ! c ! i = 0))"
    using top bot by (simp add: scale_to_8bit_eq [OF d] nth_Cons' less_Suc_eq numeral_3_eq_3)
qed

theorem auto_domain_joint_min_max_witness:
  "np_any (valid_mask_of [[Fin 7, Fin 3], [Fin 9, Fin 5]] (Some (Fin 9)))
   \<and> global_min_max [[Fin 7, Fin 3], [Fin 9, Fin 5]] (valid_mask_of [[Fin 7, Fin 3], [Fin 9, Fin 5]] (Some (Fin 9)))
       = Inr (Fin 3, Fin 7)
   \<and> np_any (valid_mask_of [[NaN, Fin 1, Fin 2]] (Some (Fin (- 9999))))
   \<and> global_min_max [[NaN, Fin 1, Fin 2]] (valid_mask_of [[NaN, Fin 1, Fin 2]] (Some (Fin (- 9999))))
       = Inr (NaN, NaN)
   \<and> wf_buffer UInt16 [[Fin 0, Fin 10000], [Fin 0, Fin 8000], [Fin 0, Fin 12000]]
   \<and> global_min_max [[Fin 0, Fin 10000], [Fin 0, Fin 8000], [Fin 0, Fin 12000]]
        (valid_mask_of [[Fin 0, Fin 10000], [Fin 0, Fin 8000], [Fin 0, Fin 12000]] None)
       = Inr (Fin 0, Fin 12000)
   \<and> scale_to_8bit 0 UInt16 [[Fin 0, Fin 10000], [Fin 0, Fin 8000], [Fin 0, Fin 12000]] None
       = Inr [[0, 212], [0, 170], [0, 255]]"
  using auto_domain_joint_min_max [where bands_data = "[[Fin 7, Fin 3], [Fin 9, Fin 5]]"
      and nodata = "Some (Fin 9)" and band_r = "[Fin 0, Fin 10000]" and band_g = "[Fin 0, Fin 8000]"
      and band_b = "[Fin 0, Fin 12000]" and dt = UInt16 and nan_byte = 0]
    auto_domain_joint_min_max [where bands_data = "[[NaN, Fin 1, Fin 2]]"
      and nodata = "Some (Fin (- 9999))" and band_r = "[Fin 0, Fin 10000]" and band_g = "[Fin 0, Fin 8000]"
      and band_b = "[Fin 0, Fin 12000]" and dt = UInt16 and nan_byte = 0]
  by (simp add: eval_defs wf_buffer_def in_dtype_def)


text \<open>Unsigned integers: no wrap-around between the bounds.\<close>

lemma in_dtype_diff_unsigned:
  assumes "int_bits dt = Some (False, n)" "in_dtype dt (Fin lo)" "in_dtype dt (Fin hi)" "lo \<le> s" "s \<le> hi"
  shows "wrap dt (s - lo) = s - lo"
proof -
  from assms have "0 \<le> lo" "hi < 2 ^ n" by (simp_all add: in_dtype_def)
  with assms(4,5) have "0 \<le> s - lo" "s - lo < 2 ^ n" by simp_all
  then show ?thesis using assms(1) by (simp add: wrap_def wrap_unsigned_id)
qed

lemma wrap_signed_cases:
  assumes "int_bits dt = Some (True, n)" "in_dtype dt (Fin lo)" "in_dtype dt (Fin hi)" "lo \<le> s" "s \<le> hi"
    and n: "0 < n"
  shows "(s - lo < 2 ^ (n - 1) \<and> wrap dt (s - lo) = s - lo)
       \<or> (2 ^ (n - 1) \<le> s - lo \<and> wrap dt (s - lo) = s - lo - 2 ^ n)"
proof -
  have p: "(2::real) ^ n = 2 * 2 ^ (n - 1)"
    using n by (cases n) simp_all
  from assms have r: "- (2 ^ (n - 1)) \<le> lo" "hi < 2 ^ (n - 1)" by (simp_all add: in_dtype_def)
  show ?thesis
  proof (cases "s - lo < 2 ^ (n - 1)")
    case True
    have "wrap_signed n (s - lo) = s - lo"
      using True assms(4) p by (intro wrap_signed_id) linarith+
    with True assms(1) show ?thesis by (simp add: wrap_def)
  next
    case False
    have "wrap_signed n (s - lo) = s - lo - 2 ^ n"
      using False assms(4,5) r p by (intro wrap_signed_over) linarith+
    with False assms(1) show ?thesis by (simp add: wrap_def)
  qed
qed

lemma int_bits_pos: "int_bits dt = Some (sg, n) \<Longrightarrow> 0 < n"
  by (cases dt) auto


text \<open>
  The divisor is a nonzero finite number of the format in the usual cases: on an integer
  raster with the domain computed from the data, and whenever the magnitude of the
  difference of the bounds lies between the least normal number of the format and the
  greatest power of two of the format.
\<close>

lemma wrap_unsigned_range: "0 \<le> wrap_unsigned n y \<and> wrap_unsigned n y < 2 ^ n"
proof -
  define q where "q = \<lfloor>y / 2 ^ n\<rfloor>"
  have p: "(0::real) < 2 ^ n" by simp
  have "of_int q \<le> y / 2 ^ n" unfolding q_def by (rule of_int_floor_le)
  then have "of_int q * 2 ^ n \<le> y / 2 ^ n * 2 ^ n" using p by (intro mult_right_mono) simp_all
  then have lo: "of_int q * 2 ^ n \<le> y" by simp
  have "y / 2 ^ n < of_int q + 1" unfolding q_def by linarith
  then have "y / 2 ^ n * 2 ^ n < (of_int q + 1) * 2 ^ n" using p by (intro mult_strict_right_mono) simp_all
  then have hi: "y < (of_int q + 1) * 2 ^ n" by simp
  have "wrap_unsigned n y = y - of_int q * 2 ^ n" by (simp add: wrap_unsigned_def q_def)
  with lo hi show ?thesis by (simp add: algebra_simps)
qed

lemma wrap_range:
  assumes "int_bits dt = Some (sg, n)"
  shows "\<bar>wrap dt y\<bar> \<le> 2 ^ 32"
proof -
  from assms have n: "n \<le> 32" by (cases dt) auto
  then have le: "(2::real) ^ n \<le> 2 ^ 32" by (intro power_increasing) simp_all
  have h: "(0::real) \<le> 2 ^ (n - 1)" "(2::real) ^ (n - 1) \<le> 2 ^ n"
    by (simp, intro power_increasing) simp_all
  show ?thesis
  proof (cases sg)
    case False
    with assms have "wrap dt y = wrap_unsigned n y" by (simp add: wrap_def)
    with wrap_unsigned_range [of n y] le show ?thesis by linarith
  next
    case True
    with assms have "wrap dt y = wrap_unsigned n (y + 2 ^ (n - 1)) - 2 ^ (n - 1)"
      by (simp add: wrap_def wrap_signed_def)
    with wrap_unsigned_range [of n "y + 2 ^ (n - 1)"] le h show ?thesis by linarith
  qed
qed

lemma divisor_ok_integer:
  assumes b: "int_bits dt = Some (sg, n)"
    and r: "in_dtype dt (Fin low)" "in_dtype dt (Fin high)" and lt: "low < high"
  shows "divisor_ok dt (sub_in dt high low)"
proof -
  from b have si: "sub_in dt high low = wrap dt (high - low)" by (simp add: sub_in_def)
  from b have f: "fmt_of dt = Binary64" by (cases dt) auto
  have nz: "wrap dt (high - low) \<noteq> 0"
  proof (cases sg)
    case False
    with b have "int_bits dt = Some (False, n)" by simp
    from in_dtype_diff_unsigned [OF this r _ order_refl] lt show ?thesis by simp
  next
    case True
    with b have bs: "int_bits dt = Some (True, n)" by simp
    note n = int_bits_pos [OF bs]
    from r bs have "high - low < 2 ^ n"
      using n by (cases n) (simp_all add: in_dtype_def)
    with wrap_signed_cases [OF bs r _ order_refl n] lt show ?thesis by auto
  qed
  have "\<bar>wrap dt (high - low)\<bar> \<le> 2 ^ 32" using b by (rule wrap_range)
  also have "(2::real) ^ 32 < 2 ^ 1024" by (intro power_strict_increasing) simp_all
  finally have "finite_in Binary64 (wrap dt (high - low))" by (simp add: finite_in_def)
  with nz show ?thesis by (simp add: divisor_ok_def si f)
qed

lemma expo_unique:
  assumes "0 < x" "2 powi k \<le> x" "x < 2 powi (k + 1)"
  shows "expo x = k"
proof -
  from expo_bounds [OF assms(1)] have b: "2 powi (expo x) \<le> x" "x < 2 powi (expo x + 1)" by simp_all
  have "\<not> expo x < k"
  proof
    assume "expo x < k"
    then have "expo x + 1 \<le> k" by simp
    then have "(2::real) powi (expo x + 1) \<le> 2 powi k" by (intro power_int_increasing) simp_all
    with b(2) assms(2) show False by simp
  qed
  moreover have "\<not> k < expo x"
  proof
    assume "k < expo x"
    then have "k + 1 \<le> expo x" by simp
    then have "(2::real) powi (k + 1) \<le> 2 powi (expo x)" by (intro power_int_increasing) simp_all
    with b(1) assms(3) show False by simp
  qed
  ultimately show ?thesis by simp
qed

lemma expo_pow2: "expo (2 powi k) = k"
  by (rule expo_unique) (simp_all add: power_int_strict_increasing)

text \<open>A power of two from the least subnormal number on is a value of the format.\<close>

lemma fl_pow2:
  assumes "emin f - int (precision f) + 1 \<le> k"
  shows "fl f (2 powi k) = 2 powi k"
proof -
  define e where "e = max k (emin f)"
  define u :: real where "u = 2 powi (e - int (precision f) + 1)"
  have "e - int (precision f) + 1 \<le> k" using assms precision_pos [of f] by (simp add: e_def max_def)
  then obtain n where n: "k - (e - int (precision f) + 1) = int n"
    using nonneg_int_cases [of "k - (e - int (precision f) + 1)"] by auto
  have "2 powi k / u = 2 powi (k - (e - int (precision f) + 1))"
    unfolding u_def by (subst power_int_diff) simp_all
  also have "\<dots> = of_int (2 ^ n)" by (simp add: n)
  finally have q: "2 powi k / u = of_int (2 ^ n)" .
  have "of_int (rne (2 powi k / u)) * u = 2 powi k / u * u"
    unfolding q by (simp only: rne_of_int)
  also have "\<dots> = 2 powi k" by (simp add: u_def)
  finally have r: "of_int (rne (2 powi k / u)) * u = 2 powi k" .
  have nn: "\<not> (2::real) powi k < 0" by (simp add: not_less)
  from r show ?thesis
    by (simp add: fl_def fl_pos_def Let_def expo_pow2 u_def e_def nn)
qed

lemma fl_abs: "\<bar>fl f x\<bar> = fl f \<bar>x\<bar>"
proof (cases "x < 0")
  case True
  then have "fl f x \<le> 0" by (intro fl_nonpos) simp
  moreover have "fl f (- x) = - fl f x" by (simp add: fl_def)
  ultimately show ?thesis using True by (simp add: abs_if)
next
  case False
  then have "0 \<le> fl f x" by (intro fl_nonneg) simp
  with False show ?thesis by (simp add: abs_if)
qed

lemma fl_moderate:
  assumes "2 powi (emin f) \<le> \<bar>x\<bar>" "\<bar>x\<bar> \<le> 2 powi (emax f)"
  shows "2 powi (emin f) \<le> \<bar>fl f x\<bar> \<and> \<bar>fl f x\<bar> \<le> 2 powi (emax f)"
proof -
  have lo: "fl f (2 powi (emin f)) = 2 powi (emin f)"
    using precision_pos [of f] by (intro fl_pow2) simp
  have hi: "fl f (2 powi (emax f)) = 2 powi (emax f)"
    using precision_pos [of f] by (intro fl_pow2) (cases f; simp)
  from assms have "fl f (2 powi (emin f)) \<le> fl f \<bar>x\<bar>" "fl f \<bar>x\<bar> \<le> fl f (2 powi (emax f))"
    by (simp_all add: fl_mono)
  then show ?thesis by (simp add: lo hi fl_abs)
qed

lemma moderate_divisor_ok:
  assumes "2 powi (emin (fmt_of dt)) \<le> \<bar>d\<bar>" "\<bar>d\<bar> \<le> 2 powi (emax (fmt_of dt))"
  shows "divisor_ok dt d"
proof -
  have "(0::real) < 2 powi (emin (fmt_of dt))" by simp
  with assms(1) have "0 < \<bar>d\<bar>" by linarith
  then have nz: "d \<noteq> 0" by simp
  have "(2::real) powi (emax (fmt_of dt)) < 2 powi (emax (fmt_of dt) + 1)"
    by (intro power_int_strict_increasing) simp_all
  with assms(2) have "\<bar>d\<bar> < 2 powi (emax (fmt_of dt) + 1)" by simp
  with nz show ?thesis by (simp add: divisor_ok_def finite_in_def)
qed

lemma divisor_ok_float_auto:
  assumes "int_bits dt = None"
    and "2 powi (emin (fmt_of dt)) \<le> \<bar>high - low\<bar>" "\<bar>high - low\<bar> \<le> 2 powi (emax (fmt_of dt))"
  shows "divisor_ok dt (sub_in dt high low)"
  using fl_moderate [OF assms(2,3)] assms(1)
  by (intro moderate_divisor_ok) (simp_all add: sub_in_def)

lemma divisor_ok_explicit:
  assumes "2 powi (emin (fmt_of dt)) \<le> \<bar>high - low\<bar>" "\<bar>high - low\<bar> \<le> 2 powi (emax (fmt_of dt))"
  shows "divisor_ok dt (explicit_divisor dt low high)"
proof (cases "fmt_of dt")
  case Binary64
  with fl_moderate [of Binary64 "high - low"] assms show ?thesis
    by (intro moderate_divisor_ok) (simp_all add: explicit_divisor_def)
next
  case Binary32
  have l: "fl Binary64 (2 powi (- 126)) = 2 powi (- 126)" by (intro fl_pow2) simp
  have h: "fl Binary64 (2 powi 127) = 2 powi 127" by (intro fl_pow2) simp
  from assms Binary32 have "fl Binary64 (2 powi (- 126)) \<le> fl Binary64 \<bar>high - low\<bar>"
    "fl Binary64 \<bar>high - low\<bar> \<le> fl Binary64 (2 powi 127)"
    by (simp_all add: fl_mono)
  then have "2 powi (emin Binary32) \<le> \<bar>fl Binary64 (high - low)\<bar>"
    "\<bar>fl Binary64 (high - low)\<bar> \<le> 2 powi (emax Binary32)"
    by (simp_all only: l h fl_abs emin.simps emax.simps)
  from fl_moderate [OF this] Binary32 show ?thesis
    by (intro moderate_divisor_ok) (simp_all add: explicit_divisor_def)
qed


lemma wf_buffer_member: "wf_buffer dt a \<Longrightarrow> v \<in> set (concat a) \<Longrightarrow> in_dtype dt v"
  by (auto simp: wf_buffer_def list_all_iff)




section \<open>The validity mask\<close>

text \<open>
  Claim C7, at the input where the code departs from it. With a not-a-number sentinel the
  comparison \<open>bands_data != nodata\<close> is true everywhere, so the samples equal to the
  sentinel are marked valid; the minimum and maximum are then not-a-number and every
  output element is the cast of not-a-number. The lemmas after it give the mask for a
  finite sentinel and for no sentinel, where the claim holds.
\<close>

theorem nan_sentinel_marks_nan_valid:
  "valid_mask_of [[NaN, Fin 1, Fin 2]] (Some NaN) = [[True, True, True]]
   \<and> global_min_max [[NaN, Fin 1, Fin 2]] (valid_mask_of [[NaN, Fin 1, Fin 2]] (Some NaN)) = Inr (NaN, NaN)
   \<and> scale_to_8bit nan_byte Float32 [[NaN, Fin 1, Fin 2]] (Some NaN) = Inr [[nan_byte, nan_byte, nan_byte]]"
  by (simp add: eval_defs)

lemma valid_mask_finite_sentinel:
  assumes "c < length a" "i < length (a ! c)"
  shows "valid_mask_of a (Some (Fin nd)) ! c ! i \<longleftrightarrow> a ! c ! i \<noteq> Fin nd"
  using assms by (cases "a ! c ! i") (simp_all add: valid_mask_of_def)

lemma valid_mask_no_sentinel:
  assumes "c < length a" "i < length (a ! c)"
  shows "valid_mask_of a None ! c ! i \<longleftrightarrow> \<not> is_nan (a ! c ! i)"
  using assms by (simp add: valid_mask_of_def)

lemma valid_mask_integer_no_sentinel:
  assumes "c < length a" "i < length (a ! c)" "wf_buffer dt a" "int_bits dt \<noteq> None"
  shows "valid_mask_of a None ! c ! i"
proof -
  from assms(1,2) have "a ! c ! i \<in> set (concat a)" by (rule nth_in_concat)
  with assms(3) have "in_dtype dt (a ! c ! i)" by (rule wf_buffer_member)
  with assms(4) have "\<not> is_nan (a ! c ! i)"
    by (cases "a ! c ! i") (auto simp: in_dtype_def)
  with assms(1,2) show ?thesis by (simp add: valid_mask_of_def)
qed



section \<open>World file and command line\<close>

lemma rfind_below_props:
  "(rfind_below p ch n = - 1 \<and> (\<forall>j<n. p ! j \<noteq> ch))
   \<or> (\<exists>i<n. rfind_below p ch n = int i \<and> p ! i = ch \<and> (\<forall>j. i < j \<and> j < n \<longrightarrow> p ! j \<noteq> ch))"
proof (induction n)
  case 0
  then show ?case by simp
next
  case (Suc n)
  show ?case
  proof (cases "p ! n = ch")
    case True
    then show ?thesis by auto
  next
    case False
    from Suc show ?thesis
    proof
      assume "rfind_below p ch n = - 1 \<and> (\<forall>j<n. p ! j \<noteq> ch)"
      with False show ?thesis by (auto simp: less_Suc_eq)
    next
      assume "\<exists>i<n. rfind_below p ch n = int i \<and> p ! i = ch \<and> (\<forall>j. i < j \<and> j < n \<longrightarrow> p ! j \<noteq> ch)"
      then obtain i where "i < n" "rfind_below p ch n = int i" "p ! i = ch"
        "\<forall>j. i < j \<and> j < n \<longrightarrow> p ! j \<noteq> ch" by blast
      with False have "i < Suc n \<and> rfind_below p ch (Suc n) = int i \<and> p ! i = ch
          \<and> (\<forall>j. i < j \<and> j < Suc n \<longrightarrow> p ! j \<noteq> ch)"
        by (auto simp: less_Suc_eq)
      then show ?thesis by blast
    qed
  qed
qed

lemma rfind_props:
  "(rfind p ch = - 1 \<and> ch \<notin> set p)
   \<or> (\<exists>i<length p. rfind p ch = int i \<and> p ! i = ch \<and> (\<forall>j. i < j \<and> j < length p \<longrightarrow> p ! j \<noteq> ch))"
  using rfind_below_props [of p ch "length p"]
  by (auto simp: rfind_def in_set_conv_nth)

lemma set_drop_nth: "x \<in> set (drop n p) \<Longrightarrow> \<exists>j. n \<le> j \<and> j < length p \<and> p ! j = x"
proof -
  assume "x \<in> set (drop n p)"
  then obtain k where k: "k < length (drop n p)" "drop n p ! k = x"
    by (auto simp: in_set_conv_nth)
  then have "n \<le> n + k \<and> n + k < length p \<and> p ! (n + k) = x" by auto
  then show ?thesis by blast
qed

lemma has_nondot_iff:
  "has_nondot p a b \<longleftrightarrow> (\<exists>k. a \<le> k \<and> k < b \<and> p ! k \<noteq> CHR ''.'')"
proof (induction p a b rule: has_nondot.induct)
  case (1 p a b)
  show ?case
  proof (cases "a < b")
    case False
    then show ?thesis by (subst has_nondot.simps) auto
  next
    case lt: True
    show ?thesis
    proof (cases "p ! a \<noteq> CHR ''.''")
      case True
      with lt show ?thesis by (subst has_nondot.simps) auto
    next
      case False
      then have dot: "p ! a = CHR ''.''" by simp
      have "has_nondot p a b = has_nondot p (a + 1) b"
        using lt dot by (subst has_nondot.simps) simp
      also have "\<dots> \<longleftrightarrow> (\<exists>k. a + 1 \<le> k \<and> k < b \<and> p ! k \<noteq> CHR ''.'')"
        using 1 [OF lt] dot by simp
      also have "\<dots> \<longleftrightarrow> (\<exists>k. a \<le> k \<and> k < b \<and> p ! k \<noteq> CHR ''.'')"
      proof
        assume "\<exists>k. a + 1 \<le> k \<and> k < b \<and> p ! k \<noteq> CHR ''.''"
        then obtain k where "a + 1 \<le> k" "k < b" "p ! k \<noteq> CHR ''.''" by blast
        then have "a \<le> k \<and> k < b \<and> p ! k \<noteq> CHR ''.''" by simp
        then show "\<exists>k. a \<le> k \<and> k < b \<and> p ! k \<noteq> CHR ''.''" by blast
      next
        assume "\<exists>k. a \<le> k \<and> k < b \<and> p ! k \<noteq> CHR ''.''"
        then obtain k where k: "a \<le> k" "k < b" "p ! k \<noteq> CHR ''.''" by blast
        with dot have "k \<noteq> a" by auto
        with k have "a + 1 \<le> k \<and> k < b \<and> p ! k \<noteq> CHR ''.''" by simp
        then show "\<exists>k. a + 1 \<le> k \<and> k < b \<and> p ! k \<noteq> CHR ''.''" by blast
      qed
      finally show ?thesis .
    qed
  qed
qed

text \<open>A path with an extension is split before the dot of the extension.\<close>

lemma splitext_of_extension:
  assumes "splits_at_extension p stem ext"
  shows "splitext p = (stem, CHR ''.'' # ext)"
proof -
  from assms have p: "p = stem @ CHR ''.'' # ext"
    and nd: "CHR ''.'' \<notin> set ext" and ns: "CHR ''/'' \<notin> set ext"
    by (simp_all add: splits_at_extension_def)
  from assms obtain j where j: "j < length stem" "stem ! j \<noteq> CHR ''.''"
    "CHR ''/'' \<notin> set (drop j stem)"
    by (auto simp: splits_at_extension_def)
  define d where "d = length stem"
  have dl: "d < length p" and pd: "p ! d = CHR ''.''" by (simp_all add: p d_def)
  have after: "p ! m \<in> set ext" if "d < m" "m < length p" for m
  proof -
    from that have "p ! m = ext ! (m - d - 1)" "m - d - 1 < length ext"
      by (simp_all add: p d_def nth_append nth_Cons')
    then show ?thesis by simp
  qed
  have before: "p ! m = stem ! m" if "m < d" for m
    using that by (simp add: p d_def nth_append)
  have dot: "rfind p CHR ''.'' = int d"
  proof -
    from rfind_props [of p "CHR ''.''"] show ?thesis
    proof
      assume "rfind p CHR ''.'' = - 1 \<and> CHR ''.'' \<notin> set p"
      then show ?thesis by (simp add: p)
    next
      assume "\<exists>i<length p. rfind p CHR ''.'' = int i \<and> p ! i = CHR ''.''
          \<and> (\<forall>j. i < j \<and> j < length p \<longrightarrow> p ! j \<noteq> CHR ''.'')"
      then obtain i where i: "i < length p" "rfind p CHR ''.'' = int i" "p ! i = CHR ''.''"
        "\<forall>j. i < j \<and> j < length p \<longrightarrow> p ! j \<noteq> CHR ''.''" by blast
      have "\<not> i < d" using i(4) dl pd by auto
      moreover have "\<not> d < i" using after [of i] i(1,3) nd by auto
      ultimately show ?thesis using i(2) by simp
    qed
  qed
  have sep: "rfind p CHR ''/'' < int j"
  proof -
    from rfind_props [of p "CHR ''/''"] show ?thesis
    proof
      assume "rfind p CHR ''/'' = - 1 \<and> CHR ''/'' \<notin> set p"
      then show ?thesis by simp
    next
      assume "\<exists>i<length p. rfind p CHR ''/'' = int i \<and> p ! i = CHR ''/''
          \<and> (\<forall>j. i < j \<and> j < length p \<longrightarrow> p ! j \<noteq> CHR ''/'')"
      then obtain i where i: "i < length p" "rfind p CHR ''/'' = int i" "p ! i = CHR ''/''" by blast
      have "i < j"
      proof (rule ccontr)
        assume "\<not> i < j"
        then have ji: "j \<le> i" by simp
        consider "i < d" | "i = d" | "d < i" by linarith
        then show False
        proof cases
          case 1
          then have "stem ! i \<in> set (drop j stem)"
            using ji by (auto simp: in_set_conv_nth d_def intro!: exI [of _ "i - j"])
          with before [OF 1] i(3) j(3) show False by simp
        next
          case 2
          with pd i(3) show False by simp
        next
          case 3
          with after [of i] i(1,3) ns show False by auto
        qed
      qed
      with i(2) show ?thesis by simp
    qed
  qed
  from rfind_props [of p "CHR ''/''"] have lo: "- 1 \<le> rfind p CHR ''/''" by auto
  have jd: "j < d" using j(1) by (simp add: d_def)
  have "nat (rfind p CHR ''/'' + 1) \<le> j \<and> j < d \<and> p ! j \<noteq> CHR ''.''"
    using sep lo jd j(2) before [OF jd] by simp
  then have "has_nondot p (nat (rfind p CHR ''/'' + 1)) d"
    unfolding has_nondot_iff by blast
  moreover have "rfind p CHR ''/'' < rfind p CHR ''.''" using sep jd dot by simp
  ultimately have "splitext p = (take d p, drop d p)"
    by (simp add: splitext_def Let_def dot)
  then show ?thesis by (simp add: p d_def)
qed

text \<open>A path without an extension is not split.\<close>

lemma splitext_no_extension:
  assumes "\<forall>stem ext. \<not> splits_at_extension p stem ext"
  shows "splitext p = (p, [])"
proof (cases "rfind p CHR ''.'' > rfind p CHR ''/''
             \<and> has_nondot p (nat (rfind p CHR ''/'' + 1)) (nat (rfind p CHR ''.''))")
  case False
  then show ?thesis unfolding splitext_def Let_def by (simp only: if_False)
next
  case True
  then have gt: "rfind p CHR ''.'' > rfind p CHR ''/''" by simp
  from rfind_props [of p "CHR ''/''"] have lo: "- 1 \<le> rfind p CHR ''/''" by auto
  with gt have "rfind p CHR ''.'' \<noteq> - 1" by simp
  with rfind_props [of p "CHR ''.''"] obtain d where d: "d < length p" "rfind p CHR ''.'' = int d"
    "p ! d = CHR ''.''" "\<forall>j. d < j \<and> j < length p \<longrightarrow> p ! j \<noteq> CHR ''.''" by auto
  have nosep: "p ! m \<noteq> CHR ''/''" if "rfind p CHR ''/'' < int m" "m < length p" for m
  proof -
    from rfind_props [of p "CHR ''/''"] show ?thesis
    proof
      assume "rfind p CHR ''/'' = - 1 \<and> CHR ''/'' \<notin> set p"
      with that show ?thesis by (auto simp: in_set_conv_nth)
    next
      assume "\<exists>i<length p. rfind p CHR ''/'' = int i \<and> p ! i = CHR ''/''
          \<and> (\<forall>j. i < j \<and> j < length p \<longrightarrow> p ! j \<noteq> CHR ''/'')"
      then obtain i where "rfind p CHR ''/'' = int i" "\<forall>j. i < j \<and> j < length p \<longrightarrow> p ! j \<noteq> CHR ''/''"
        by blast
      with that show ?thesis by auto
    qed
  qed
  from True d(2) have "has_nondot p (nat (rfind p CHR ''/'' + 1)) d" by simp
  then obtain k where k: "nat (rfind p CHR ''/'' + 1) \<le> k" "k < d" "p ! k \<noteq> CHR ''.''"
    unfolding has_nondot_iff by blast
  from k(1) have ksep: "rfind p CHR ''/'' < int k" by linarith
  define stem where "stem = take d p"
  define ext where "ext = drop (Suc d) p"
  have 1: "p = stem @ CHR ''.'' # ext"
    using id_take_nth_drop [OF d(1)] d(3) by (simp add: stem_def ext_def)
  have 2: "CHR ''.'' \<notin> set ext"
  proof
    assume "CHR ''.'' \<in> set ext"
    from set_drop_nth [OF this [unfolded ext_def]] d(4) show False by auto
  qed
  have 3: "CHR ''/'' \<notin> set ext"
  proof
    assume "CHR ''/'' \<in> set ext"
    from set_drop_nth [OF this [unfolded ext_def]] obtain m where "Suc d \<le> m" "m < length p" "p ! m = CHR ''/''"
      by blast
    with nosep [of m] gt d(2) show False by simp
  qed
  have 4: "k < length stem" "stem ! k \<noteq> CHR ''.''" using k d(1) by (simp_all add: stem_def)
  have 5: "CHR ''/'' \<notin> set (drop k stem)"
  proof
    assume "CHR ''/'' \<in> set (drop k stem)"
    from set_drop_nth [OF this] obtain m where m: "k \<le> m" "m < length stem" "stem ! m = CHR ''/''"
      by blast
    then have "m < length p" "p ! m = CHR ''/''" using d(1) by (simp_all add: stem_def)
    with nosep [of m] ksep m(1) show False by simp
  qed
  from 1 2 3 4 5 have "splits_at_extension p stem ext"
    unfolding splits_at_extension_def by blast
  with assms show ?thesis by blast
qed

text \<open>
  Claim C10. The world file is named by the output path with its extension replaced by
  \<open>.tfw\<close>: when the path is \<open>stem\<close>, a dot and an extension, the name is \<open>stem\<close> and \<open>.tfw\<close>;
  when the path has no extension the name is the path and \<open>.tfw\<close>. The file holds six
  values, each followed by a newline, in the order \<open>a\<close>, \<open>b\<close>, \<open>d\<close>, \<open>e\<close>, \<open>c\<close>, \<open>f\<close>
  of the transform: pixel width, the two rotation terms, pixel height, origin x, origin y.
\<close>

theorem world_file_name_and_content:
  "(splits_at_extension output_path stem ext
      \<longrightarrow> fst (create_world_file str_float transform output_path) = stem @ ''.tfw'')
   \<and> ((\<forall>stem ext. \<not> splits_at_extension output_path stem ext)
      \<longrightarrow> fst (create_world_file str_float transform output_path) = output_path @ ''.tfw'')
   \<and> snd (create_world_file str_float transform output_path) =
       WriteFile (fst (create_world_file str_float transform output_path))
         (concat (map (\<lambda>x. str_float x @ [CHR 0x0A])
            [tr_a transform, tr_b transform, tr_d transform,
             tr_e transform, tr_c transform, tr_f transform]))"
proof (intro conjI impI)
  assume "splits_at_extension output_path stem ext"
  from splitext_of_extension [OF this]
  show "fst (create_world_file str_float transform output_path) = stem @ ''.tfw''"
    by (simp add: create_world_file_def Let_def)
next
  assume "\<forall>stem ext. \<not> splits_at_extension output_path stem ext"
  from splitext_no_extension [OF this]
  show "fst (create_world_file str_float transform output_path) = output_path @ ''.tfw''"
    by (simp add: create_world_file_def Let_def)
next
  show "snd (create_world_file str_float transform output_path) =
       WriteFile (fst (create_world_file str_float transform output_path))
         (concat (map (\<lambda>x. str_float x @ [CHR 0x0A])
            [tr_a transform, tr_b transform, tr_d transform,
             tr_e transform, tr_c transform, tr_f transform]))"
    by (simp add: create_world_file_def Let_def)
qed

theorem world_file_name_and_content_witness:
  "splits_at_extension ''out/scene.v2.tif'' ''out/scene.v2'' ''tif''
   \<and> create_world_file str_integral
       \<lparr>tr_a = 10, tr_b = 0, tr_c = 500000, tr_d = 0, tr_e = - 10, tr_f = 4200000\<rparr> ''out/scene.v2.tif''
     = (''out/scene.v2.tfw'',
        WriteFile ''out/scene.v2.tfw'' ''10.0\<newline>0.0\<newline>0.0\<newline>-10.0\<newline>500000.0\<newline>4200000.0\<newline>'')
   \<and> (\<forall>stem ext. \<not> splits_at_extension ''maps.d/.hidden'' stem ext)
   \<and> fst (create_world_file str_integral
       \<lparr>tr_a = 10, tr_b = 0, tr_c = 500000, tr_d = 0, tr_e = - 10, tr_f = 4200000\<rparr> ''maps.d/.hidden'')
     = ''maps.d/.hidden.tfw''"
proof -
  have a: "splits_at_extension ''out/scene.v2.tif'' ''out/scene.v2'' ''tif''"
    unfolding splits_at_extension_def by (intro conjI exI [of _ 4]) simp_all
  have "splitext ''maps.d/.hidden'' = (''maps.d/.hidden'', [])"
    by (simp add: splitext_def rfind_def Let_def has_nondot.simps)
  with splitext_of_extension [of "''maps.d/.hidden''"]
  have b: "\<forall>stem ext. \<not> splits_at_extension ''maps.d/.hidden'' stem ext" by auto
  from a b
    world_file_name_and_content [of "''out/scene.v2.tif''" "''out/scene.v2''" "''tif''" str_integral
      "\<lparr>tr_a = 10, tr_b = 0, tr_c = 500000, tr_d = 0, tr_e = - 10, tr_f = 4200000\<rparr>"]
    world_file_name_and_content [of "''maps.d/.hidden''" "[]" "[]" str_integral
      "\<lparr>tr_a = 10, tr_b = 0, tr_c = 500000, tr_d = 0, tr_e = - 10, tr_f = 4200000\<rparr>"]
  show ?thesis
    by (simp add: prod_eq_iff str_integral_def dec_nat.simps)
qed

text \<open>
  Claim C6, amended. When the input path exists and exactly one of the two bounds is
  given, \<open>main\<close> exits with code 1 after printing that both must be given together,
  before the source is opened or any band is read.
\<close>

theorem partial_domain_rejected_by_main:
  assumes "map_of fs (arg_input args) \<noteq> None"
    and "(arg_min args = None) \<noteq> (arg_max args = None)"
  shows "main str_float nan_byte fs args
           = (1, [PathExists (arg_input args), Stderr InvalidDomainSpecification])"
  using assms by (auto simp: main_def)

text \<open>
  The conversion itself does not reject a single bound: \<open>convert_raster_to_rgb\<close> called
  with a minimum only reads the bands, scales automatically and writes the output.
\<close>

theorem partial_domain_accepted_by_convert:
  "convert_raster_to_rgb str_integral 0
     [(''in.tif'', RasterFile \<lparr>src_bands = [[Fin 0, Fin 8]], src_dtype = UInt16, src_nodata = None,
         src_transform = \<lparr>tr_a = 10, tr_b = 0, tr_c = 5, tr_d = 0, tr_e = - 10, tr_f = 7\<rparr>,
         src_width = 2, src_height = 1, src_crs = None\<rparr>)]
     ''in.tif'' ''out.tif'' 1 1 1 (Some (Fin 0)) None
   = (Inr (),
      [OpenSource ''in.tif'', Print (MsgReading 1 1 1 ''in.tif''),
       ReadBand 1, ReadBand 1, ReadBand 1,
       Print (MsgWriting ''out.tif''), WriteGeoTIFF ''out.tif'' [[0, 255], [0, 255], [0, 255]],
       WriteFile ''out.tfw'' ''10.0\<newline>0.0\<newline>0.0\<newline>-10.0\<newline>5.0\<newline>7.0\<newline>'',
       Print (MsgCreatedWorldFile ''out.tfw''), Print MsgComplete, Print (MsgInput 1 UInt16),
       Print MsgOutput, Print (MsgDimensions 2 1)])"
  by (simp add: convert_raster_to_rgb_def read_band_def eval_defs create_world_file_def
      splitext_def rfind_def Let_def str_integral_def dec_nat.simps has_nondot.simps)

theorem partial_domain_rejected_by_main_witness:
  "map_of [(''in.tif'', OtherFile)] ''in.tif'' \<noteq> None
   \<and> main str_integral 0 [(''in.tif'', OtherFile)]
        \<lparr>arg_input = ''in.tif'', arg_output = ''out.tif'', arg_red = 1, arg_green = 2, arg_blue = 3,
         arg_min = None, arg_max = Some (Fin 10000)\<rparr>
       = (1, [PathExists ''in.tif'', Stderr InvalidDomainSpecification])"
  using partial_domain_rejected_by_main [of "[(''in.tif'', OtherFile)]"
      "\<lparr>arg_input = ''in.tif'', arg_output = ''out.tif'', arg_red = 1, arg_green = 2, arg_blue = 3,
         arg_min = None, arg_max = Some (Fin 10000)\<rparr>" str_integral 0]
  by simp

text \<open>A missing input file is reported before the bounds are looked at.\<close>

lemma missing_input_reported_first:
  "map_of fs (arg_input args) = None \<Longrightarrow>
     main str_float nan_byte fs args = (1, [PathExists (arg_input args), Stderr (InputNotFound (arg_input args))])"
  by (simp add: main_def)

end
